theory Spec2Isabelle
  imports Main "HOL-Library.Word"
begin

unbundle bit_operations_syntax

section \<open>Data model of the baseband sniffer (basesniffmodule.c)\<close>

type_synonym u8 = "8 word"
type_synonym u16 = "16 word"
type_synonym u32 = "32 word"

text \<open>
  The header \<^verbatim>\<open>basesniffmodule.h\<close> is not part of the sources. Every macro of it that
  the modelled functions use is a field of the record \<open>hdr\<close>, so that each function
  takes the header as its first argument and every theorem holds for all values of
  the macros. The overlay \<^verbatim>\<open>struct frontline_packet *fp = buf\<close> is the field
  \<open>fp_at\<close>: the struct's layout is in the missing header too.
\<close>

text \<open>
  Modelled from the spec: the fields of \<^verbatim>\<open>struct frontline_packet\<close> that the decoder
  reads (section 4.3: header length, channel byte, 32-bit clock word, hdr0 byte, len word);
  the struct declaration is in the missing header.
\<close>

record frontline_packet =
  fp_hlen :: u8
  fp_chan :: u8
  fp_clock :: u32
  fp_hdr0 :: u8
  fp_len :: u16

record hdr =
  FRAG_FIRST :: int
  FRAG_LAST :: int
  CHAN_DEBUG :: int
  CMD_TIMER :: int
  DP_DATA_SIZE :: nat
  LMP_IN_RAND :: int
  LMP_COMB_KEY :: int
  LMP_AU_RAND :: int
  LMP_SRES :: int
  LMP_TID_MASK :: int
  LMP_OP1_SHIFT :: nat
  TYPE_DV :: int
  LLID_LMP :: int
  HLEN_BC2 :: int
  HLEN_BC4 :: int
  FP_TYPE_SHIFT :: nat
  FP_TYPE_MASK :: int
  FP_ADDR_MASK :: int
  FP_LEN_SHIFT :: nat
  FP_LEN_LLID_SHIFT :: nat
  FP_LEN_LLID_MASK :: int
  FP_SLAVE_MASK :: int
  FP_CLOCK_MASK :: int
  FP_STATUS_SHIFT :: nat
  fp_at :: "u8 list \<Rightarrow> frontline_packet"

text \<open>
  Constants and structs of the BlueZ system headers \<^verbatim>\<open>bluetooth/hci.h\<close>, which the
  module includes: packet type bytes, the vendor event code and opcode group, and the sizes
  of the packed structs \<^verbatim>\<open>hci_event_hdr\<close> (evt, plen: two bytes) and \<^verbatim>\<open>hci_acl_hdr\<close>
  (handle, dlen: two 16-bit words). The record fields carry the struct's name as a prefix.
\<close>

definition HCI_ACLDATA_PKT :: int where "HCI_ACLDATA_PKT = 0x02"
definition HCI_EVENT_PKT :: int where "HCI_EVENT_PKT = 0x04"
definition EVT_VENDOR :: int where "EVT_VENDOR = 0xFF"
definition OGF_VENDOR_CMD :: int where "OGF_VENDOR_CMD = 0x3F"
definition sizeof_hci_event_hdr :: int where "sizeof_hci_event_hdr = 2"
definition sizeof_hci_acl_hdr :: int where "sizeof_hci_acl_hdr = 4"

record hci_event_hdr =
  evt_evt :: u8
  evt_plen :: u8

record hci_acl_hdr =
  acl_handle :: u16
  acl_dlen :: u16

definition acl_handle_pack :: "int \<Rightarrow> int \<Rightarrow> u16" where
  "acl_handle_pack hnd f = word_of_int ((hnd AND 0x0FFF) OR push_bit 12 f)"

text \<open>
  Modelled from the spec: \<^verbatim>\<open>struct hcidump_hdr\<close> (section 4.7: declared length,
  direction, timestamp seconds, timestamp microseconds); its declaration is not in the
  sources. The C field \<^verbatim>\<open>in\<close> is \<open>dh_in\<close> here.
\<close>

record hcidump_hdr =
  dh_len :: u16
  dh_in :: u8
  dh_ts_sec :: u32
  dh_ts_usec :: u32

text \<open>
  The session object \<^verbatim>\<open>PyState\<close>. The pairing slots \<^verbatim>\<open>s_pin_data[7][16]\<close> are one
  contiguous block of 112 bytes, modelled as a store from the byte offset to the byte: slot
  \<open>i\<close> starts at offset \<open>16 * i\<close>. The array \<^verbatim>\<open>s_ignore\<close> is the list of its
  \<^verbatim>\<open>MAX_TYPES\<close> entries.
\<close>

record PyState =
  s_fd :: int
  s_buf :: "u8 list"
  s_len :: int
  s_dump :: int
  s_ignore :: "int list"
  s_ignore_zero :: bool
  s_llid :: int
  s_master :: bool
  s_type :: int
  s_pin :: int
  s_pin_master :: bool
  s_pin_data :: "nat \<Rightarrow> u8"

subsection \<open>Effects: the console, the dump file, fatal errors\<close>

text \<open>
  Every call of \<^verbatim>\<open>printf\<close> is recorded with its format string and its arguments, every
  successful \<^verbatim>\<open>write\<close> with its file descriptor and the object written. The trace is
  kept when the process dies: what was printed or written before a fatal error stays.
\<close>

datatype dump_item =
    Dump_hdr hcidump_hdr
  | Dump_type u8
  | Dump_evt hci_event_hdr
  | Dump_acl hci_acl_hdr
  | Dump_bytes "u8 list"

datatype event =
    Printf string "int list"
  | Write int dump_item

text \<open>
  \<open>Assert_failed\<close> carries the text of the failed assertion, \<open>Aborted\<close> is
  \<^verbatim>\<open>abort()\<close>, \<open>Err_exit\<close> is \<^verbatim>\<open>err(1, ...)\<close> with its message, and
  \<open>Mem_overrun\<close> is an access outside the object a pointer points into (undefined
  behaviour in C).
\<close>

datatype error =
    Assert_failed string
  | Aborted
  | Err_exit string
  | Mem_overrun

text \<open>
  The world: the trace so far, and how many more calls of \<^verbatim>\<open>write\<close> will succeed
  (\<open>None\<close>: all of them).
\<close>

record world =
  out :: "event list"
  wr_left :: "nat option"

type_synonym 'a result = "(error + 'a) \<times> world"

definition printf :: "world \<Rightarrow> string \<Rightarrow> int list \<Rightarrow> world" where
  "printf w fmt args = w\<lparr>out := out w @ [Printf fmt args]\<rparr>"

definition prints :: "world \<Rightarrow> event list \<Rightarrow> world" where
  "prints w evs = w\<lparr>out := out w @ evs\<rparr>"

definition NL :: string where
  "NL = [CHR 0x0A]"

text \<open>\<^verbatim>\<open>if (write(fd, &x, sizeof(x)) != sizeof(x)) err(1, "write()");\<close>\<close>

definition write_dump :: "world \<Rightarrow> int \<Rightarrow> dump_item \<Rightarrow> unit result" where
  "write_dump w fd x =
     (case wr_left w of
        None \<Rightarrow> (Inr (), w\<lparr>out := out w @ [Write fd x]\<rparr>)
      | Some 0 \<Rightarrow> (Inl (Err_exit ''write()''), w)
      | Some (Suc n) \<Rightarrow> (Inr (), w\<lparr>out := out w @ [Write fd x], wr_left := Some n\<rparr>))"

text \<open>The \<open>len\<close> bytes at a pointer: outside the memory \<open>buf\<close> the read is an overrun.\<close>

definition bytes_at :: "u8 list \<Rightarrow> int \<Rightarrow> u8 list option" where
  "bytes_at buf len =
     (if 0 \<le> len \<and> nat len \<le> length buf then Some (take (nat len) buf) else None)"

text \<open>\<^verbatim>\<open>while (len--) printf("%.2X ", *p++); printf("\n");\<close>\<close>

definition hexdump :: "u8 list \<Rightarrow> event list" where
  "hexdump bs = map (\<lambda>b. Printf ''%.2X '' [uint b]) bs @ [Printf NL []]"

section \<open>The pairing observer: do_pin\<close>

definition GOT_IN_RAND :: int where "GOT_IN_RAND = push_bit 1 1"
definition GOT_COMB1 :: int where "GOT_COMB1 = push_bit 2 1"
definition GOT_COMB2 :: int where "GOT_COMB2 = push_bit 3 1"
definition GOT_AU_RAND1 :: int where "GOT_AU_RAND1 = push_bit 4 1"
definition GOT_SRES1 :: int where "GOT_SRES1 = push_bit 5 1"
definition GOT_AU_RAND2 :: int where "GOT_AU_RAND2 = push_bit 6 1"
definition GOT_SRES2 :: int where "GOT_SRES2 = push_bit 7 1"

text \<open>
  \<^verbatim>\<open>memcpy(s->s_pin_data[i], buf, len)\<close>: the bytes go to the offsets from \<open>16 * i\<close> on.
  A body longer than 16 bytes runs into the next slots; past the 112 bytes of the array, or
  with a negative length, or reading past the memory of \<open>buf\<close>, the copy is an overrun.
\<close>

definition memcpy_slot :: "(nat \<Rightarrow> u8) \<Rightarrow> nat \<Rightarrow> u8 list \<Rightarrow> int \<Rightarrow> (nat \<Rightarrow> u8) option" where
  "memcpy_slot d i buf len =
     (case bytes_at buf len of
        None \<Rightarrow> None
      | Some bs \<Rightarrow>
          if 16 * i + length bs \<le> 112
          then Some (\<lambda>k. if 16 * i \<le> k \<and> k < 16 * i + length bs then bs ! (k - 16 * i) else d k)
          else None)"

text \<open>
  The two nested loops that print the seven slots: 16 bytes of the slots 0 to 4, 4 bytes of
  the slots 5 and 6, each slot followed by a blank.
\<close>

definition print_slot :: "(nat \<Rightarrow> u8) \<Rightarrow> nat \<Rightarrow> event list" where
  "print_slot d i =
     map (\<lambda>j. Printf ''%.2x'' [uint (d (16 * i + j))]) [0 ..< (if 5 \<le> i then 4 else 16)]
     @ [Printf '' '' []]"

definition pin_line :: "PyState \<Rightarrow> event list" where
  "pin_line s =
     [Printf ''btpincrack Go '' [],
      (if s_pin_master s then Printf ''<master> <slave> '' []
       else Printf ''<slave> <master> '' [])]
     @ concat (map (print_slot (s_pin_data s)) [0 ..< 7])
     @ [Printf NL []]"

text \<open>The part of \<^verbatim>\<open>do_pin\<close> after the switch.\<close>

definition pin_emit :: "PyState \<Rightarrow> world \<Rightarrow> PyState result" where
  "pin_emit s w =
     (if s_pin s \<noteq> 0xFF then (Inr s, w)
      else (Inr (s\<lparr>s_pin := 1\<rparr>), prints w (pin_line s)))"

text \<open>
  The pattern of the accepting branches of the switch:
  \<^verbatim>\<open>memcpy(s->s_pin_data[i], buf, len); s->s_pin |= FLAG; break;\<close>
\<close>

definition pin_store :: "PyState \<Rightarrow> world \<Rightarrow> nat \<Rightarrow> int \<Rightarrow> u8 list \<Rightarrow> int \<Rightarrow> PyState result" where
  "pin_store s w i flag buf len =
     (case memcpy_slot (s_pin_data s) i buf len of
        None \<Rightarrow> (Inl Mem_overrun, w)
      | Some d \<Rightarrow> pin_emit (s\<lparr>s_pin_data := d, s_pin := s_pin s OR flag\<rparr>) w)"

definition do_pin :: "hdr \<Rightarrow> PyState \<Rightarrow> world \<Rightarrow> int \<Rightarrow> u8 list \<Rightarrow> int \<Rightarrow> PyState result" where
  "do_pin h s w op buf len =
     (if op = LMP_IN_RAND h then
        (case memcpy_slot (s_pin_data s) 0 buf len of
           None \<Rightarrow> (Inl Mem_overrun, w)
         | Some d \<Rightarrow>
             pin_emit (s\<lparr>s_pin := 1 OR GOT_IN_RAND, s_pin_master := s_master s,
                         s_pin_data := d\<rparr>) w)
      else if op = LMP_COMB_KEY h then
        (if s_pin s AND GOT_IN_RAND = 0 then (Inr s, w)
         else if s_master s = s_pin_master s then pin_store s w 1 GOT_COMB1 buf len
         else pin_store s w 2 GOT_COMB2 buf len)
      else if op = LMP_AU_RAND h then
        (if s_pin s AND GOT_COMB1 = 0 \<or> s_pin s AND GOT_COMB2 = 0 then (Inr s, w)
         else if s_master s = s_pin_master s then pin_store s w 3 GOT_AU_RAND1 buf len
         else pin_store s w 4 GOT_AU_RAND2 buf len)
      else if op = LMP_SRES h then
        (if s_master s \<noteq> s_pin_master s then
           (if s_pin s AND GOT_AU_RAND1 = 0 then (Inr s, w)
            else pin_store s w 6 GOT_SRES1 buf len)
         else
           (if s_pin s AND GOT_AU_RAND2 = 0 then (Inr s, w)
            else pin_store s w 5 GOT_SRES2 buf len))
      else (Inr s, w))"

text \<open>
  The switch of \<^verbatim>\<open>do_pin\<close> on its own: the session with which control reaches the test
  \<^verbatim>\<open>if (s->s_pin != 0xFF)\<close> behind it, or \<open>None\<close> where the switch leaves the
  function with \<^verbatim>\<open>return\<close>. \<open>pin_copy\<close> is the pattern
  \<^verbatim>\<open>memcpy(s->s_pin_data[i], buf, len); s->s_pin |= FLAG; break;\<close>.
\<close>

definition pin_copy :: "PyState \<Rightarrow> nat \<Rightarrow> int \<Rightarrow> u8 list \<Rightarrow> int \<Rightarrow> error + PyState option" where
  "pin_copy s i flag buf len =
     (case memcpy_slot (s_pin_data s) i buf len of
        None \<Rightarrow> Inl Mem_overrun
      | Some d \<Rightarrow> Inr (Some (s\<lparr>s_pin_data := d, s_pin := s_pin s OR flag\<rparr>)))"

definition pin_switch :: "hdr \<Rightarrow> PyState \<Rightarrow> int \<Rightarrow> u8 list \<Rightarrow> int \<Rightarrow> error + PyState option" where
  "pin_switch h s op buf len =
     (if op = LMP_IN_RAND h then
        (case memcpy_slot (s_pin_data s) 0 buf len of
           None \<Rightarrow> Inl Mem_overrun
         | Some d \<Rightarrow>
             Inr (Some (s\<lparr>s_pin := 1 OR GOT_IN_RAND, s_pin_master := s_master s,
                           s_pin_data := d\<rparr>)))
      else if op = LMP_COMB_KEY h then
        (if s_pin s AND GOT_IN_RAND = 0 then Inr None
         else if s_master s = s_pin_master s then pin_copy s 1 GOT_COMB1 buf len
         else pin_copy s 2 GOT_COMB2 buf len)
      else if op = LMP_AU_RAND h then
        (if s_pin s AND GOT_COMB1 = 0 \<or> s_pin s AND GOT_COMB2 = 0 then Inr None
         else if s_master s = s_pin_master s then pin_copy s 3 GOT_AU_RAND1 buf len
         else pin_copy s 4 GOT_AU_RAND2 buf len)
      else if op = LMP_SRES h then
        (if s_master s \<noteq> s_pin_master s then
           (if s_pin s AND GOT_AU_RAND1 = 0 then Inr None
            else pin_copy s 6 GOT_SRES1 buf len)
         else
           (if s_pin s AND GOT_AU_RAND2 = 0 then Inr None
            else pin_copy s 5 GOT_SRES2 buf len))
      else Inr None)"

text \<open>
  Feeding the observer. An input is the role flag of the fragment (\<^verbatim>\<open>s_master\<close>, set by
  the frontline decoder before the payload is dispatched), the opcode and the body that
  \<^verbatim>\<open>process_lmp\<close> passes on; \<^verbatim>\<open>process_lmp\<close> calls \<^verbatim>\<open>do_pin\<close> only
  \<^verbatim>\<open>if (s->s_pin)\<close>. A fatal error ends the run.
\<close>

definition observe :: "hdr \<Rightarrow> PyState \<Rightarrow> world \<Rightarrow> bool \<times> int \<times> u8 list \<Rightarrow> PyState result" where
  "observe h s w x =
     (case x of (m, op, body) \<Rightarrow>
        if s_pin s \<noteq> 0 then do_pin h (s\<lparr>s_master := m\<rparr>) w op body (int (length body))
        else (Inr (s\<lparr>s_master := m\<rparr>), w))"

fun observe_all :: "hdr \<Rightarrow> PyState \<Rightarrow> world \<Rightarrow> (bool \<times> int \<times> u8 list) list \<Rightarrow> PyState result" where
  "observe_all h s w [] = (Inr s, w)"
| "observe_all h s w (x # xs) =
     (case observe h s w x of
        (Inl e, w') \<Rightarrow> (Inl e, w')
      | (Inr s', w') \<Rightarrow> observe_all h s' w' xs)"

section \<open>Sequencing of fallible steps\<close>

text \<open>A fatal error ends the computation and keeps the world as it is at that point.\<close>

definition andthen :: "'a result \<Rightarrow> ('a \<Rightarrow> world \<Rightarrow> 'b result) \<Rightarrow> 'b result" where
  "andthen r f = (case r of (Inl e, w) \<Rightarrow> (Inl e, w) | (Inr a, w) \<Rightarrow> f a w)"

section \<open>The dump writers: dump_lmp and process_l2cap\<close>

text \<open>
  \<^verbatim>\<open>dump_lmp\<close>: \<^verbatim>\<open>totlen\<close> is \<^verbatim>\<open>sizeof(type) + sizeof(evt) + sizeof(csr_lmp)\<close>, with
  \<^verbatim>\<open>csr_lmp[1+1+17+1]\<close>. The buffer \<^verbatim>\<open>csr_lmp\<close> is zeroed, gets the channel id and
  the direction byte, then the body from offset 2 on; the pointer ends at offset 19, where
  the connection handle 0 is stored (the second assertion, 19 < 20, always holds).
\<close>

definition dump_lmp :: "PyState \<Rightarrow> world \<Rightarrow> u8 list \<Rightarrow> int \<Rightarrow> unit result" where
  "dump_lmp s w buf len =
     (let totlen = 1 + sizeof_hci_event_hdr + 20 in
      if \<not> len \<le> 17 then (Inl (Assert_failed ''len <= 17''), w)
      else
        andthen (write_dump w (s_dump s)
                   (Dump_hdr \<lparr>dh_len = word_of_int totlen, dh_in = 1, dh_ts_sec = 0, dh_ts_usec = 0\<rparr>))
          (\<lambda>_ w1. andthen (write_dump w1 (s_dump s) (Dump_type (word_of_int HCI_EVENT_PKT)))
          (\<lambda>_ w2. andthen (write_dump w2 (s_dump s)
                              (Dump_evt \<lparr>evt_evt = word_of_int EVT_VENDOR, evt_plen = 20\<rparr>))
          (\<lambda>_ w3. case bytes_at buf len of
                      None \<Rightarrow> (Inl Mem_overrun, w3)
                    | Some bs \<Rightarrow>
                        write_dump w3 (s_dump s)
                          (Dump_bytes ([20, if s_master s then 0x10 else 0x0F] @ bs
                                       @ replicate (17 - length bs) 0 @ [0]))))))"

definition process_l2cap :: "PyState \<Rightarrow> world \<Rightarrow> u8 list \<Rightarrow> int \<Rightarrow> PyState result" where
  "process_l2cap s w buf len =
     (let totlen = 1 + sizeof_hci_acl_hdr + len in
      case bytes_at buf len of
        None \<Rightarrow> (Inl Mem_overrun, printf w ''L2CAP: '' [])
      | Some bs \<Rightarrow>
          (let w0 = prints (printf w ''L2CAP: '' []) (hexdump bs) in
           if s_dump s = - 1 then (Inr s, w0)
           else
             andthen (write_dump w0 (s_dump s)
                        (Dump_hdr \<lparr>dh_len = word_of_int totlen, dh_in = 1, dh_ts_sec = 0, dh_ts_usec = 0\<rparr>))
               (\<lambda>_ w1. andthen (write_dump w1 (s_dump s) (Dump_type (word_of_int HCI_ACLDATA_PKT)))
               (\<lambda>_ w2. andthen (write_dump w2 (s_dump s)
                                   (Dump_acl \<lparr>acl_handle = acl_handle_pack 0 (s_llid s),
                                              acl_dlen = word_of_int len\<rparr>))
               (\<lambda>_ w3. andthen (write_dump w3 (s_dump s) (Dump_bytes bs))
               (\<lambda>_ w4. (Inr s, w4)))))))"

section \<open>The LMP decoder: process_lmp\<close>

text \<open>
  The part of \<^verbatim>\<open>process_lmp\<close> after the call of \<^verbatim>\<open>dump_lmp\<close>, from
  \<^verbatim>\<open>op1 = *data++\<close> on. The byte at the pointer is read even when \<open>len\<close> is 0; the
  assertion comes after the read. A read outside the memory \<open>buf\<close> is an overrun.
\<close>

definition lmp_decode :: "hdr \<Rightarrow> PyState \<Rightarrow> world \<Rightarrow> u8 list \<Rightarrow> int \<Rightarrow> PyState result" where
  "lmp_decode h s w buf len =
     (case buf of
        [] \<Rightarrow> (Inl Mem_overrun, w)
      | b # data \<Rightarrow>
          (let op1 = uint b; len = len - 1 in
           if \<not> 0 \<le> len then (Inl (Assert_failed ''len >= 0''), w)
           else
             (let tid = op1 AND LMP_TID_MASK h;
                  op1 = drop_bit (LMP_OP1_SHIFT h) op1
              in
              andthen
                (if 124 \<le> op1 \<and> op1 \<le> 127 then
                   (case data of
                      [] \<Rightarrow> (Inl Mem_overrun, w)
                    | c # data' \<Rightarrow>
                        if \<not> 0 \<le> len - 1 then (Inl (Assert_failed ''len >= 0''), w)
                        else (Inr (uint c, data', len - 1), w))
                 else (Inr (- 1, data, len), w))
                (\<lambda>(op2, data, len) w.
                   (let w1 = printf w ''LMP Tid %d Op1 %d'' [tid, op1];
                        w2 = (if op2 \<noteq> - 1 then printf w1 '' Op2 %d'' [op2] else w1);
                        w3 = printf w2 '': '' []
                    in
                    case bytes_at data len of
                      None \<Rightarrow> (Inl Mem_overrun, w3)
                    | Some bs \<Rightarrow>
                        (let w4 = prints w3 (hexdump bs) in
                         if s_pin s \<noteq> 0 then do_pin h s w4 op1 data len
                         else (Inr s, w4)))))))"

definition process_lmp :: "hdr \<Rightarrow> PyState \<Rightarrow> world \<Rightarrow> u8 list \<Rightarrow> int \<Rightarrow> PyState result" where
  "process_lmp h s w buf len =
     andthen (if s_dump s \<noteq> - 1 then dump_lmp s w buf len else (Inr (), w))
       (\<lambda>_ w'. lmp_decode h s w' buf len)"

section \<open>The payload dispatch and the frontline decoder\<close>

definition process_dv :: "PyState \<Rightarrow> world \<Rightarrow> u8 list \<Rightarrow> int \<Rightarrow> PyState result" where
  "process_dv s w buf len =
     (case bytes_at buf len of
        None \<Rightarrow> (Inl Mem_overrun, printf w ''DV: '' [])
      | Some bs \<Rightarrow> (Inr s, prints (printf w ''DV: '' []) (hexdump bs)))"

definition process_payload :: "hdr \<Rightarrow> PyState \<Rightarrow> world \<Rightarrow> u8 list \<Rightarrow> int \<Rightarrow> PyState result" where
  "process_payload h s w buf len =
     (if s_type s = TYPE_DV h then process_dv s w buf len
      else if s_llid s = LLID_LMP h then process_lmp h s w buf len
      else process_l2cap s w buf len)"

definition HL_format :: string where
  "HL_format = ''HL 0x%.2X Ch %.2d %c Clk 0x%.7X Status 0x%.1X Hdr0 0x%.2X''
               @ '' [type: %d addr: %d] LLID %d Len %d''"

text \<open>
  The locals that \<^verbatim>\<open>process_frontline\<close> computes from the header on entry:
  \<^verbatim>\<open>type = (fp->fp_hdr0 >> FP_TYPE_SHIFT) & FP_TYPE_MASK\<close>,
  \<^verbatim>\<open>plen = fp->fp_len >> FP_LEN_SHIFT\<close>, \<^verbatim>\<open>status = fp->fp_hdr0 & FP_ADDR_MASK\<close> and
  \<^verbatim>\<open>hlen = fp->fp_hlen\<close>.
\<close>

definition fp_type :: "hdr \<Rightarrow> frontline_packet \<Rightarrow> int" where
  "fp_type h fp = drop_bit (FP_TYPE_SHIFT h) (uint (fp_hdr0 fp)) AND FP_TYPE_MASK h"

definition fp_plen :: "hdr \<Rightarrow> frontline_packet \<Rightarrow> int" where
  "fp_plen h fp = drop_bit (FP_LEN_SHIFT h) (uint (fp_len fp))"

definition fp_status :: "hdr \<Rightarrow> frontline_packet \<Rightarrow> int" where
  "fp_status h fp = uint (fp_hdr0 fp) AND FP_ADDR_MASK h"

definition fp_hdrlen :: "frontline_packet \<Rightarrow> int" where
  "fp_hdrlen fp = uint (fp_hlen fp)"

text \<open>The session fields set from the header, and the header summary line.\<close>

definition fp_session :: "hdr \<Rightarrow> PyState \<Rightarrow> frontline_packet \<Rightarrow> PyState" where
  "fp_session h s fp =
     s\<lparr>s_llid := drop_bit (FP_LEN_LLID_SHIFT h) (uint (fp_len fp)) AND FP_LEN_LLID_MASK h,
       s_master := (uint (fp_clock fp) AND FP_SLAVE_MASK h = 0),
       s_type := fp_type h fp\<rparr>"

definition HL_line :: "hdr \<Rightarrow> PyState \<Rightarrow> frontline_packet \<Rightarrow> event" where
  "HL_line h s1 fp =
     Printf HL_format
       [uint (fp_hlen fp), uint (fp_chan fp),
        (if s_master s1 then 77 else 83),
        uint (fp_clock fp) AND FP_CLOCK_MASK h,
        drop_bit (FP_STATUS_SHIFT h) (uint (fp_clock fp)),
        uint (fp_hdr0 fp), fp_type h fp, fp_status h fp, s_llid s1, fp_plen h fp]"

text \<open>
  \<^verbatim>\<open>process_frontline\<close> calls itself on the fragments appended after the payload. The
  call repeats for ever when a fragment takes no byte of the buffer (a header length of 0
  with an empty payload), so the recursion is bounded by fuel: the first argument is the
  number of nested calls allowed, and \<open>None\<close> means that it was used up. The buffer
  \<open>buf\<close> is the memory from the pointer on, \<open>len\<close> the length argument. The
  characters \<^verbatim>\<open>'M'\<close> and \<^verbatim>\<open>'S'\<close> are 77 and 83.
\<close>

fun process_frontline :: "nat \<Rightarrow> hdr \<Rightarrow> PyState \<Rightarrow> world \<Rightarrow> u8 list \<Rightarrow> int \<Rightarrow> PyState result option" where
  "process_frontline 0 h s w buf len = None"
| "process_frontline (Suc n) h s w buf len =
     (let fp = fp_at h buf;
          type = fp_type h fp;
          plen = fp_plen h fp;
          hlen = fp_hdrlen fp
      in
      if hlen \<noteq> HLEN_BC2 h \<and> hlen \<noteq> HLEN_BC4 h
      then Some (Inl Aborted, printf w (''Unknown header len %d'' @ NL) [hlen])
      else if type \<in> set (s_ignore s) then Some (Inr s, w)
      else if s_ignore_zero s \<and> plen = 0 then Some (Inr s, w)
      else
        (let s1 = fp_session h s fp;
             w1 = prints w [HL_line h s1 fp];
             len1 = len - hlen
         in
         if \<not> 0 \<le> len1 then Some (Inl (Assert_failed ''len >= 0''), w1)
         else if \<not> plen \<le> len1 then Some (Inl (Assert_failed ''len >= plen''), w1)
         else
           (case (if plen \<noteq> 0
                  then process_payload h s1 (printf w1 '' '' []) (drop (nat hlen) buf) plen
                  else (Inr s1, printf w1 NL []))
            of
              (Inl e, w2) \<Rightarrow> Some (Inl e, w2)
            | (Inr s2, w2) \<Rightarrow>
                (let len2 = len1 - plen in
                 if \<not> 0 \<le> len2 then Some (Inl (Assert_failed ''len >= 0''), w2)
                 else if len2 \<noteq> 0
                 then process_frontline n h s2 w2 (drop (nat hlen + nat plen) buf) len2
                 else Some (Inr s2, w2)))))"

section \<open>The top-level receive path: process and the loop of basesniff_sniff\<close>

text \<open>
  The overlay \<^verbatim>\<open>acl = (hci_acl_hdr*) (type+1)\<close> on a little-endian host: two 16-bit words,
  low byte first.
\<close>

definition acl_at :: "u8 list \<Rightarrow> hci_acl_hdr option" where
  "acl_at bs =
     (case bs of
        b0 # b1 # b2 # b3 # _ \<Rightarrow>
          Some \<lparr>acl_handle = word_of_int (uint b0 + 256 * uint b1),
                acl_dlen = word_of_int (uint b2 + 256 * uint b3)\<rparr>
      | _ \<Rightarrow> None)"

text \<open>
  In \<^verbatim>\<open>assert(acl->dlen == (len - sizeof(*acl) - 1))\<close> the right-hand side has the type
  \<^verbatim>\<open>size_t\<close>: the subtraction wraps around (64 bits here) when \<open>len\<close> is below 5.
\<close>

definition process :: "nat \<Rightarrow> hdr \<Rightarrow> PyState \<Rightarrow> world \<Rightarrow> u8 list \<Rightarrow> int \<Rightarrow> PyState result option" where
  "process n h s w buf len =
     (case buf of
        [] \<Rightarrow> Some (Inl Mem_overrun, w)
      | ty # rest \<Rightarrow>
          if uint ty \<noteq> HCI_ACLDATA_PKT
          then Some (Inr s, printf w (''Unknown type: %d'' @ NL) [uint ty])
          else
            (case acl_at rest of
               None \<Rightarrow> Some (Inl Mem_overrun, w)
             | Some acl \<Rightarrow>
                 if uint (acl_dlen acl) \<noteq> (len - sizeof_hci_acl_hdr - 1) mod 2 ^ 64
                 then Some (Inl (Assert_failed ''acl->dlen == (len - sizeof(*acl) - 1)''), w)
                 else process_frontline n h s w (drop 4 rest) (uint (acl_dlen acl))))"

text \<open>
  The loop \<^verbatim>\<open>while(1)\<close> of \<^verbatim>\<open>basesniff_sniff\<close>, run on the packets that the
  successive calls of \<^verbatim>\<open>read\<close> deliver (\<open>None\<close>: the call returns -1). A packet
  overwrites the front of \<^verbatim>\<open>s_buf\<close>, at most \<^verbatim>\<open>sizeof(s_buf)\<close> bytes of it. When the
  list is used up the loop is blocked in \<^verbatim>\<open>read\<close>; the result is the session at that
  point. The fuel is the fuel of each call of the frontline decoder. \<open>read_packet\<close> is
  \<^verbatim>\<open>state->s_len = read(state->s_fd, state->s_buf, sizeof(state->s_buf))\<close>.
\<close>

definition read_packet :: "PyState \<Rightarrow> u8 list \<Rightarrow> PyState" where
  "read_packet s pkt =
     (let got = take (length (s_buf s)) pkt in
      s\<lparr>s_buf := got @ drop (length got) (s_buf s), s_len := int (length got)\<rparr>)"

fun sniff_loop :: "nat \<Rightarrow> hdr \<Rightarrow> PyState \<Rightarrow> world \<Rightarrow> u8 list option list \<Rightarrow> PyState result option" where
  "sniff_loop n h s w [] = Some (Inr s, w)"
| "sniff_loop n h s w (None # rs) = Some (Inl (Err_exit ''read()''), w)"
| "sniff_loop n h s w (Some pkt # rs) =
     (let s1 = read_packet s pkt in
      case process n h s1 w (s_buf s1) (s_len s1) of
        None \<Rightarrow> None
      | Some (Inl e, w') \<Rightarrow> Some (Inl e, w')
      | Some (Inr s', w') \<Rightarrow> sniff_loop n h s' w' rs)"

section \<open>The vendor command path: send_debug and basesniff_get_timer\<close>

text \<open>
  Modelled from the spec: \<^verbatim>\<open>struct dbg_packet\<close> of the missing header, "a fixed-size
  record carrying a command opcode and an inline payload area" (section 3), encoded as the
  type byte followed by the payload (scenario S1: prefix, CMD_TIMER, zero payload). The
  size of the payload area is the header parameter \<open>DP_DATA_SIZE\<close>.
\<close>

record dbg_packet =
  dp_type :: u8
  dp_data :: "u8 list"

definition dbg_bytes :: "dbg_packet \<Rightarrow> u8 list" where
  "dbg_bytes dp = dp_type dp # dp_data dp"

text \<open>
  \<^verbatim>\<open>struct hci_request\<close> of BlueZ without its reply pointer, and the three library calls
  that the command path makes: \<open>hci_send_req\<close> gets the descriptor, the request and
  the timeout, and yields the reply parameters, or \<open>None\<close> for a negative return value.
\<close>

record hci_request =
  rq_ogf :: int
  rq_ocf :: int
  rq_event :: int
  rq_cparam :: "u8 list"
  rq_clen :: int
  rq_rlen :: int

record hci_lib =
  hci_devid :: "string \<Rightarrow> int"
  hci_open_dev :: "int \<Rightarrow> int"
  hci_send_req :: "int \<Rightarrow> hci_request \<Rightarrow> int \<Rightarrow> u8 list option"

text \<open>
  The request that \<^verbatim>\<open>send_debug\<close> builds: the buffer \<^verbatim>\<open>cp[254]\<close> zeroed, the payload
  descriptor at offset 0, the packet behind it, and \<^verbatim>\<open>clen = p - cp\<close>.
\<close>

definition debug_request :: "hdr \<Rightarrow> dbg_packet \<Rightarrow> int \<Rightarrow> hci_request" where
  "debug_request h dp rplen =
     (let cmd = word_of_int (FRAG_FIRST h OR FRAG_LAST h OR CHAN_DEBUG h) # dbg_bytes dp in
      \<lparr>rq_ogf = OGF_VENDOR_CMD, rq_ocf = 0x00, rq_event = EVT_VENDOR,
       rq_cparam = cmd @ replicate (254 - length cmd) 0,
       rq_clen = int (length cmd), rq_rlen = rplen\<rparr>)"

text \<open>
  \<^verbatim>\<open>send_debug\<close> yields the reply buffer \<open>rp\<close> after the call: the library copies at
  most \<open>rplen\<close> bytes of the reply to its front. A packet that does not fit into
  \<^verbatim>\<open>cp\<close> overruns it.
\<close>

definition send_debug :: "hdr \<Rightarrow> hci_lib \<Rightarrow> PyState \<Rightarrow> dbg_packet \<Rightarrow> u8 list \<Rightarrow> int \<Rightarrow> error + u8 list" where
  "send_debug h lib s dp rp rplen =
     (if 254 < 1 + length (dbg_bytes dp) then Inl Mem_overrun
      else
        (case hci_send_req lib (s_fd s) (debug_request h dp rplen) 2000 of
           None \<Rightarrow> Inl (Err_exit ''hci_send_req()'')
         | Some reply \<Rightarrow>
             (let got = take (nat rplen) reply in Inr (got @ drop (length got) rp))))"

definition get_dev_fd :: "hci_lib \<Rightarrow> string \<Rightarrow> error + int" where
  "get_dev_fd lib devname =
     (let dev = hci_devid lib devname in
      if dev < 0 then Inl (Err_exit ''hci_devid()'')
      else
        (let devfd = hci_open_dev lib dev in
         if devfd < 0 then Inl (Err_exit ''hci_devid()2'') else Inr devfd))"

text \<open>
  \<^verbatim>\<open>basesniff_get_timer\<close>: the arguments are the parsed tuple, or \<open>None\<close> when
  \<^verbatim>\<open>PyArg_ParseTuple\<close> fails and the function returns \<^verbatim>\<open>NULL\<close>. The result is the
  Python integer and the session. \<^verbatim>\<open>*((unsigned int *)&rp[2])\<close> reads four bytes in the
  byte order of the host (little-endian here), and the format \<^verbatim>\<open>"i"\<close> takes the value as
  a signed \<^verbatim>\<open>int\<close>.
\<close>

definition basesniff_get_timer :: "hdr \<Rightarrow> hci_lib \<Rightarrow> (PyState \<times> string) option \<Rightarrow> error + (int \<times> PyState) option" where
  "basesniff_get_timer h lib args =
     (let rp = replicate 254 0;
          pkt = \<lparr>dp_type = word_of_int (CMD_TIMER h), dp_data = replicate (DP_DATA_SIZE h) 0\<rparr>
      in
      case args of
        None \<Rightarrow> Inr None
      | Some (state, devname) \<Rightarrow>
          (case get_dev_fd lib devname of
             Inl e \<Rightarrow> Inl e
           | Inr fd \<Rightarrow>
               (let state = state\<lparr>s_fd := fd\<rparr> in
                case send_debug h lib state pkt rp 254 of
                  Inl e \<Rightarrow> Inl e
                | Inr rp \<Rightarrow>
                    Inr (Some (sint (word_rcat [rp ! 5, rp ! 4, rp ! 3, rp ! 2] :: u32), state)))))"

section \<open>Notions used to state the properties\<close>

text \<open>Which slot and flag a non-IN_RAND opcode stores to, if it is accepted.\<close>

definition pin_accept :: "hdr \<Rightarrow> PyState \<Rightarrow> int \<Rightarrow> (nat \<times> int) option" where
  "pin_accept h s op =
     (if op = LMP_COMB_KEY h then
        (if s_pin s AND GOT_IN_RAND = 0 then None
         else if s_master s = s_pin_master s then Some (1, GOT_COMB1) else Some (2, GOT_COMB2))
      else if op = LMP_AU_RAND h then
        (if s_pin s AND GOT_COMB1 = 0 \<or> s_pin s AND GOT_COMB2 = 0 then None
         else if s_master s = s_pin_master s then Some (3, GOT_AU_RAND1) else Some (4, GOT_AU_RAND2))
      else if op = LMP_SRES h then
        (if s_master s \<noteq> s_pin_master s then
           (if s_pin s AND GOT_AU_RAND1 = 0 then None else Some (6, GOT_SRES1))
         else
           (if s_pin s AND GOT_AU_RAND2 = 0 then None else Some (5, GOT_SRES2)))
      else None)"

text \<open>
  The pairing mask that the test \<^verbatim>\<open>if (s->s_pin != 0xFF)\<close> of \<^verbatim>\<open>do_pin\<close> sees when
  an input is fed to the observer, if the test is reached at all.
\<close>

definition test_mask :: "hdr \<Rightarrow> PyState \<Rightarrow> bool \<times> int \<times> u8 list \<Rightarrow> int option" where
  "test_mask h s x =
     (case x of (m, op, body) \<Rightarrow>
        if s_pin s = 0 then None
        else
          (case pin_switch h (s\<lparr>s_master := m\<rparr>) op body (int (length body)) of
             Inr (Some t) \<Rightarrow> Some (s_pin t)
           | _ \<Rightarrow> None))"

definition armed_inv :: "int \<Rightarrow> bool" where
  "armed_inv m \<longleftrightarrow> m = 1 \<or> bit m 1"

definition swap_ab :: "event \<Rightarrow> event" where
  "swap_ab e =
     (if e = Printf ''<master> <slave> '' [] then Printf ''<slave> <master> '' []
      else if e = Printf ''<slave> <master> '' [] then Printf ''<master> <slave> '' []
      else e)"

definition flip_rel :: "PyState \<Rightarrow> PyState \<Rightarrow> bool" where
  "flip_rel s t \<longleftrightarrow>
     s_pin t = s_pin s \<and> s_pin_data t = s_pin_data s \<and> armed_inv (s_pin s)
     \<and> (bit (s_pin s) 1 \<longrightarrow> s_pin_master t = (\<not> s_pin_master s))"

definition rerun_rel :: "(nat \<Rightarrow> u8) \<Rightarrow> (nat \<Rightarrow> u8) \<Rightarrow> PyState \<Rightarrow> PyState \<Rightarrow> bool" where
  "rerun_rel A B a b \<longleftrightarrow>
     s_pin b = s_pin a \<and> armed_inv (s_pin a)
     \<and> (bit (s_pin a) 1 \<longrightarrow> s_pin_master b = s_pin_master a)
     \<and> (\<forall>k. s_pin_data b k = s_pin_data a k \<or> (s_pin_data a k = A k \<and> s_pin_data b k = B k))"

definition got_count :: "int \<Rightarrow> nat" where
  "got_count m =
     of_bool (bit m 1) + of_bool (bit m 2) + of_bool (bit m 3) + of_bool (bit m 4)
     + of_bool (bit m 5) + of_bool (bit m 6) + of_bool (bit m 7)"

definition pin_slot :: "PyState \<Rightarrow> nat \<Rightarrow> u8 list" where
  "pin_slot s i = map (\<lambda>j. s_pin_data s (16 * i + j)) [0 ..< (if 5 \<le> i then 4 else 16)]"

definition slot_after :: "hdr \<Rightarrow> PyState \<Rightarrow> world \<Rightarrow> (bool \<times> int \<times> u8 list) list \<Rightarrow> nat \<Rightarrow> u8 list option" where
  "slot_after h s w xs i =
     (case observe_all h s w xs of (Inr s', _) \<Rightarrow> Some (pin_slot s' i) | (Inl e, _) \<Rightarrow> None)"

definition flip_roles :: "(bool \<times> int \<times> u8 list) list \<Rightarrow> (bool \<times> int \<times> u8 list) list" where
  "flip_roles xs = map (\<lambda>(m, op, body). (\<not> m, op, body)) xs"

definition is_flag :: "int \<Rightarrow> bool" where
  "is_flag f \<longleftrightarrow>
     f = GOT_COMB1 \<or> f = GOT_COMB2 \<or> f = GOT_AU_RAND1 \<or> f = GOT_SRES1
     \<or> f = GOT_AU_RAND2 \<or> f = GOT_SRES2"

definition mem_rel :: "(nat \<Rightarrow> u8) \<Rightarrow> (nat \<Rightarrow> u8) \<Rightarrow> (nat \<Rightarrow> u8) \<Rightarrow> (nat \<Rightarrow> u8) \<Rightarrow> bool" where
  "mem_rel A B d e \<longleftrightarrow> (\<forall>k. e k = d k \<or> (d k = A k \<and> e k = B k))"

definition emit_rel :: "PyState \<Rightarrow> PyState \<Rightarrow> event list \<Rightarrow> event list \<Rightarrow> bool" where
  "emit_rel a b evs evs' \<longleftrightarrow>
     (evs = [] \<and> evs' = []) \<or>
     (evs = pin_line a \<and> evs' = pin_line b \<and> s_pin_master b = s_pin_master a \<and> s_pin a = 1)"

definition slot_holds :: "(nat \<Rightarrow> u8) \<Rightarrow> nat \<Rightarrow> u8 list \<Rightarrow> bool" where
  "slot_holds d i body \<longleftrightarrow> (\<forall>j < length body. d (16 * i + j) = body ! j)"

definition short_bodies :: "(bool \<times> int \<times> u8 list) list \<Rightarrow> bool" where
  "short_bodies xs \<longleftrightarrow> (\<forall>x \<in> set xs. length (snd (snd x)) \<le> 16)"

definition sres_inv :: "hdr \<Rightarrow> (bool \<times> int \<times> u8 list) list \<Rightarrow> PyState \<Rightarrow> bool" where
  "sres_inv h xs t \<longleftrightarrow>
     (bit (s_pin t) 1 \<longrightarrow> (\<exists>body. (s_pin_master t, LMP_IN_RAND h, body) \<in> set xs)) \<and>
     (bit (s_pin t) 7 \<longrightarrow>
        (\<exists>body. (s_pin_master t, LMP_SRES h, body) \<in> set xs \<and> slot_holds (s_pin_data t) 5 body)) \<and>
     (bit (s_pin t) 5 \<longrightarrow>
        (\<exists>body. (\<not> s_pin_master t, LMP_SRES h, body) \<in> set xs \<and> slot_holds (s_pin_data t) 6 body))"

text \<open>
  The format of an event (\<open>None\<close> for a write), and the relation "the trace of
  \<open>w'\<close> is that of \<open>w\<close> followed by events whose formats satisfy \<open>Q\<close>".
\<close>

definition fmt_of :: "event \<Rightarrow> string option" where
  "fmt_of e = (case e of Printf f _ \<Rightarrow> Some f | Write _ _ \<Rightarrow> None)"

definition adds :: "(string option \<Rightarrow> bool) \<Rightarrow> world \<Rightarrow> world \<Rightarrow> bool" where
  "adds Q w w' \<longleftrightarrow> (\<exists>evs. out w' = out w @ evs \<and> (\<forall>e \<in> set evs. Q (fmt_of e)))"

definition pin_formats :: "string list" where
  "pin_formats = [''btpincrack Go '', ''<master> <slave> '', ''<slave> <master> '', ''%.2x'', '' '', NL]"

definition lmp_formats :: "string list" where
  "lmp_formats = [''LMP Tid %d Op1 %d'', '' Op2 %d'', '': '', ''%.2X '', NL]"

text \<open>
  The length precondition of the LMP decoder, and "the next \<open>k\<close> calls of
  \<^verbatim>\<open>write\<close> succeed".
\<close>

definition lmp_len_ok :: "hdr \<Rightarrow> u8 list \<Rightarrow> int \<Rightarrow> bool" where
  "lmp_len_ok h buf len \<longleftrightarrow>
     1 \<le> len \<and>
     (124 \<le> drop_bit (LMP_OP1_SHIFT h) (uint (hd buf)) \<and> drop_bit (LMP_OP1_SHIFT h) (uint (hd buf)) \<le> 127
        \<longrightarrow> 2 \<le> len)"

definition writes_ok :: "world \<Rightarrow> nat \<Rightarrow> bool" where
  "writes_ok w k \<longleftrightarrow> (case wr_left w of None \<Rightarrow> True | Some n \<Rightarrow> k \<le> n)"

text \<open>
  Reading the trace of the frontline decoder: the header summary lines (log frames), the
  header length and payload length each of them reports, the payload dispatches (a summary
  line followed by the blank that precedes the payload decoder's output), and the events
  added between two worlds.
\<close>

definition is_HL :: "event \<Rightarrow> bool" where
  "is_HL e \<longleftrightarrow> fmt_of e = Some HL_format"

definition log_frames :: "event list \<Rightarrow> nat" where
  "log_frames evs = length (filter is_HL evs)"

fun dispatches :: "event list \<Rightarrow> nat" where
  "dispatches (e # e' # es) = (if is_HL e \<and> e' = Printf '' '' [] then 1 else 0) + dispatches (e' # es)"
| "dispatches es = 0"

definition new_events :: "world \<Rightarrow> world \<Rightarrow> event list" where
  "new_events w w' = drop (length (out w)) (out w')"

definition hl_frames :: "event list \<Rightarrow> (int \<times> int) list" where
  "hl_frames evs = map (\<lambda>e. case e of Printf f a \<Rightarrow> (a ! 0, a ! 9) | Write fd x \<Rightarrow> (0, 0)) (filter is_HL evs)"

text \<open>
  The decomposition of a buffer as the spec words it (section 4.3, step 7): the first
  fragment, and, if \<open>remaining = len - hlen - plen > 0\<close>, the fragments of the
  remaining tail. The fuel is that of the decoder. A fragment is valid for a session when
  its header length is one of the two known values and no filter removes it.
\<close>

fun fragments :: "nat \<Rightarrow> hdr \<Rightarrow> u8 list \<Rightarrow> int \<Rightarrow> frontline_packet list" where
  "fragments 0 h buf len = []"
| "fragments (Suc n) h buf len =
     (let fp = fp_at h buf; remaining = len - fp_hdrlen fp - fp_plen h fp in
      fp # (if 0 < remaining
            then fragments n h (drop (nat (fp_hdrlen fp) + nat (fp_plen h fp)) buf) remaining
            else []))"

definition frag_valid :: "hdr \<Rightarrow> PyState \<Rightarrow> frontline_packet \<Rightarrow> bool" where
  "frag_valid h s fp \<longleftrightarrow>
     (fp_hdrlen fp = HLEN_BC2 h \<or> fp_hdrlen fp = HLEN_BC4 h) \<and>
     fp_type h fp \<notin> set (s_ignore s) \<and> \<not> (s_ignore_zero s \<and> fp_plen h fp = 0)"

text \<open>
  The bytes that the decomposition accounts for: the sum of \<open>hlen + plen\<close> over its
  fragments.
\<close>

definition covered :: "nat \<Rightarrow> hdr \<Rightarrow> u8 list \<Rightarrow> int \<Rightarrow> int" where
  "covered n h buf len = (\<Sum>fp \<leftarrow> fragments n h buf len. fp_hdrlen fp + fp_plen h fp)"

text \<open>
  The part of \<^verbatim>\<open>process_frontline\<close> between the two assertions on the header and the
  subtraction \<^verbatim>\<open>len -= plen\<close>, for a fragment that is decoded: the session fields, the
  header summary line, and the payload dispatch or the newline.
\<close>

definition frontline_body :: "hdr \<Rightarrow> PyState \<Rightarrow> world \<Rightarrow> u8 list \<Rightarrow> PyState result" where
  "frontline_body h s w buf =
     (let fp = fp_at h buf;
          s1 = fp_session h s fp;
          w1 = prints w [HL_line h s1 fp]
      in
      if fp_plen h fp \<noteq> 0
      then process_payload h s1 (printf w1 '' '' []) (drop (nat (fp_hdrlen fp)) buf) (fp_plen h fp)
      else (Inr s1, printf w1 NL []))"

definition payload_formats :: "string list" where
  "payload_formats = ''L2CAP: '' # ''DV: '' # lmp_formats @ pin_formats"

text \<open>
  Modelled from the spec: the values of the macros \<^verbatim>\<open>FRAG_FIRST\<close>, \<^verbatim>\<open>FRAG_LAST\<close>,
  \<^verbatim>\<open>CHAN_DEBUG\<close> and \<^verbatim>\<open>CMD_TIMER\<close> of the missing header, as far as scenario S1 gives
  them: the prefix byte \<^verbatim>\<open>FRAG_FIRST | FRAG_LAST | CHAN_DEBUG\<close> is 0x07 and
  \<^verbatim>\<open>CMD_TIMER\<close> is 0x00.
\<close>

definition spec_debug_macros :: "hdr \<Rightarrow> bool" where
  "spec_debug_macros h \<longleftrightarrow>
     FRAG_FIRST h OR FRAG_LAST h OR CHAN_DEBUG h = 0x07 \<and> CMD_TIMER h = 0x00"

text \<open>
  The request that \<^verbatim>\<open>basesniff_get_timer\<close> hands to \<^verbatim>\<open>send_debug\<close> (the packet zeroed,
  \<^verbatim>\<open>dp_type = CMD_TIMER\<close>, a reply buffer of 254 bytes), and the signed 32-bit
  little-endian integer at an offset of a byte list.
\<close>

definition timer_request :: "hdr \<Rightarrow> hci_request" where
  "timer_request h =
     debug_request h \<lparr>dp_type = word_of_int (CMD_TIMER h), dp_data = replicate (DP_DATA_SIZE h) 0\<rparr> 254"

definition le32_at :: "u8 list \<Rightarrow> nat \<Rightarrow> int" where
  "le32_at bs i = sint (word_rcat [bs ! (i + 3), bs ! (i + 2), bs ! (i + 1), bs ! i] :: u32)"

section \<open>Sample data for the closed examples\<close>

definition byte_or0 :: "u8 list \<Rightarrow> nat \<Rightarrow> u8" where
  "byte_or0 bs i = (if i < length bs then bs ! i else 0)"

definition fp_at0 :: "u8 list \<Rightarrow> frontline_packet" where
  "fp_at0 bs =
     \<lparr>fp_hlen = byte_or0 bs 0, fp_chan = byte_or0 bs 1,
      fp_clock = word_rcat [byte_or0 bs 5, byte_or0 bs 4, byte_or0 bs 3, byte_or0 bs 2],
      fp_hdr0 = byte_or0 bs 6,
      fp_len = word_rcat [byte_or0 bs 8, byte_or0 bs 7]\<rparr>"

definition hdr0 :: hdr where
  "hdr0 =
     \<lparr>FRAG_FIRST = 1, FRAG_LAST = 2, CHAN_DEBUG = 4, CMD_TIMER = 0, DP_DATA_SIZE = 19,
      LMP_IN_RAND = 8, LMP_COMB_KEY = 9, LMP_AU_RAND = 11, LMP_SRES = 12,
      LMP_TID_MASK = 1, LMP_OP1_SHIFT = 1, TYPE_DV = 8, LLID_LMP = 3,
      HLEN_BC2 = 9, HLEN_BC4 = 10,
      FP_TYPE_SHIFT = 3, FP_TYPE_MASK = 0x0F, FP_ADDR_MASK = 7, FP_LEN_SHIFT = 3,
      FP_LEN_LLID_SHIFT = 0, FP_LEN_LLID_MASK = 3, FP_SLAVE_MASK = 2,
      FP_CLOCK_MASK = 0x7FFFFFF, FP_STATUS_SHIFT = 28, fp_at = fp_at0\<rparr>"

definition st0 :: PyState where
  "st0 =
     \<lparr>s_fd = 3, s_buf = [], s_len = 0, s_dump = - 1, s_ignore = [], s_ignore_zero = False,
      s_llid = 0, s_master = False, s_type = 0, s_pin = 1, s_pin_master = False,
      s_pin_data = (\<lambda>_. 0)\<rparr>"

definition w0 :: world where
  "w0 = \<lparr>out = [], wr_left = None\<rparr>"

definition xs5 :: "(bool \<times> int \<times> u8 list) list" where
  "xs5 =
     [(True, 8, replicate 16 0x11), (True, 9, replicate 16 0x22), (False, 9, replicate 16 0x33),
      (True, 11, replicate 16 0x44), (False, 11, replicate 16 0x55),
      (False, 12, replicate 4 0x66), (True, 12, replicate 4 0x77)]"

text \<open>
  Two concatenated fragments in the sample layout: header length 10 (HLEN_BC4 of the sample
  header), type 0, LLID 2; the first with a payload of 4 bytes, the second with none.
\<close>

definition buf2 :: "u8 list" where
  "buf2 =
     [10, 0x27, 0, 0, 0, 0, 0x00, 0x22, 0x00, 0x00] @ [0xDE, 0xAD, 0xBE, 0xEF]
     @ [10, 0x27, 0, 0, 0, 0, 0x00, 0x02, 0x00, 0x00]"

text \<open>
  A single fragment in the sample layout that declares 4 bytes of payload in a stream of 12
  bytes: header length 10, type 0, LLID 2; and the fatal error, if any, in which the
  decoder ends.
\<close>

definition buf_short :: "u8 list" where
  "buf_short = [10, 0x27, 0, 0, 0, 0, 0x00, 0x22, 0x00, 0x00] @ [0xDE, 0xAD]"

definition frontline_error :: "nat \<Rightarrow> hdr \<Rightarrow> PyState \<Rightarrow> world \<Rightarrow> u8 list \<Rightarrow> int \<Rightarrow> error option" where
  "frontline_error n h s w buf len =
     (case process_frontline n h s w buf len of
        Some (Inl e, w') \<Rightarrow> Some e
      | _ \<Rightarrow> None)"

definition frontline_trace :: "nat \<Rightarrow> hdr \<Rightarrow> PyState \<Rightarrow> world \<Rightarrow> u8 list \<Rightarrow> int \<Rightarrow> event list" where
  "frontline_trace n h s w buf len =
     (case process_frontline n h s w buf len of
        None \<Rightarrow> []
      | Some (r, w') \<Rightarrow> new_events w w')"

text \<open>
  A library for the timer example: the device is found and opened as descriptor 3, and the
  firmware answers every request with the reply of scenario S1.
\<close>

definition lib0 :: hci_lib where
  "lib0 =
     \<lparr>hci_devid = (\<lambda>_. 0), hci_open_dev = (\<lambda>_. 3),
      hci_send_req = (\<lambda>fd rq t. Some [0x00, 0x00, 0x78, 0x56, 0x34, 0x12, 0x00, 0x00])\<rparr>"

text \<open>
  Packets for the receive path, read into a buffer of 8 bytes: an HCI event (type 4), an
  ACL packet of 6 bytes that declares 9 bytes of data, and an ACL packet whose frontline
  header gives the length 7.
\<close>

definition sb :: PyState where
  "sb = st0\<lparr>s_buf := replicate 8 0\<rparr>"

definition pkt_evt :: "u8 list" where
  "pkt_evt = [0x04, 0x0E, 0x01, 0x00]"

definition pkt_short :: "u8 list" where
  "pkt_short = [0x02, 0x01, 0x00, 0x09, 0x00, 0x0A]"

definition pkt_hlen :: "u8 list" where
  "pkt_hlen = [0x02, 0x01, 0x00, 0x01, 0x00, 0x07]"

section \<open>The pairing observer: lemmas\<close>


lemma GOT_vals: "GOT_IN_RAND = 2" "GOT_COMB1 = 4" "GOT_COMB2 = 8" "GOT_AU_RAND1 = 16"
  "GOT_SRES1 = 32" "GOT_AU_RAND2 = 64" "GOT_SRES2 = 128"
  by (simp_all add: GOT_IN_RAND_def GOT_COMB1_def GOT_COMB2_def GOT_AU_RAND1_def GOT_SRES1_def GOT_AU_RAND2_def GOT_SRES2_def)

lemma in_rand_bit: "((m::int) AND GOT_IN_RAND = 0) \<longleftrightarrow> \<not> bit m 1"
  using and_exp_eq_0_iff_not_bit [of m 1] by (simp add: GOT_vals)

lemma bit1_or: "bit (m::int) 1 \<Longrightarrow> bit (m OR f) 1"
  by (simp add: bit_or_iff)

lemma bit0_or: "bit (m::int) 0 \<Longrightarrow> bit (m OR f) 0"
  by (simp add: bit_or_iff)

lemma one_and_flags: "(1::int) AND GOT_IN_RAND = 0" "(1::int) AND GOT_COMB1 = 0" "(1::int) AND GOT_COMB2 = 0"
  "(1::int) AND GOT_AU_RAND1 = 0" "(1::int) AND GOT_AU_RAND2 = 0"
  by (simp_all add: GOT_vals)

lemma armed_mask: "(1::int) OR GOT_IN_RAND = 3" "bit (3::int) 1" "bit (3::int) 0" "(3::int) \<noteq> 0xFF" "(3::int) \<noteq> 1"
  by (simp_all add: GOT_vals)

lemma swap_print_slot: "map swap_ab (print_slot d i) = print_slot d i"
  by (simp add: print_slot_def swap_ab_def)

lemma swap_slots: "map swap_ab (concat (map (print_slot d) ns)) = concat (map (print_slot d) ns)"
  by (simp add: map_concat swap_print_slot comp_def)

lemma swap_ab_simps:
  "swap_ab (Printf ''btpincrack Go '' []) = Printf ''btpincrack Go '' []"
  "swap_ab (Printf ''<master> <slave> '' []) = Printf ''<slave> <master> '' []"
  "swap_ab (Printf ''<slave> <master> '' []) = Printf ''<master> <slave> '' []"
  "swap_ab (Printf NL []) = Printf NL []"
  by (simp_all add: swap_ab_def NL_def)

lemma swap_pin_line:
  "s_pin_data t = s_pin_data s \<Longrightarrow> s_pin_master t = (\<not> s_pin_master s) \<Longrightarrow> map swap_ab (pin_line s) = pin_line t"
  by (simp add: pin_line_def swap_slots swap_ab_simps)

lemma bit1_255: "bit (255::int) 1" by simp

lemma pin_emit_flip:
  assumes "s_pin t = s_pin s" "s_pin_data t = s_pin_data s" "bit (s_pin s) 1" "s_pin_master t = (\<not> s_pin_master s)"
  shows "\<exists>s' t' evs. pin_emit s w = (Inr s', prints w evs) \<and> pin_emit t v = (Inr t', prints v (map swap_ab evs))
     \<and> flip_rel s' t'"
proof (cases "s_pin s = 0xFF")
  case True
  with assms show ?thesis
    by (auto simp add: pin_emit_def flip_rel_def armed_inv_def swap_pin_line intro!: exI[of _ "pin_line s"])
next
  case False
  with assms have "pin_emit s w = (Inr s, prints w [])" "pin_emit t v = (Inr t, prints v (map swap_ab []))" "flip_rel s t"
    by (auto simp add: pin_emit_def flip_rel_def armed_inv_def prints_def)
  then show ?thesis by blast
qed


lemma pin_store_flip:
  assumes "s_pin t = s_pin s" "s_pin_data t = s_pin_data s" "bit (s_pin s) 1"
    "s_pin_master t = (\<not> s_pin_master s)"
    and run: "pin_store s w i f buf len = (Inr s', w')"
  shows "\<exists>t' evs. w' = prints w evs \<and> pin_store t v i f buf len = (Inr t', prints v (map swap_ab evs))
     \<and> flip_rel s' t'"
proof (cases "memcpy_slot (s_pin_data s) i buf len")
  case None
  with run show ?thesis by (simp add: pin_store_def)
next
  case (Some d)
  let ?s = "s\<lparr>s_pin_data := d, s_pin := s_pin s OR f\<rparr>"
  let ?t = "t\<lparr>s_pin_data := d, s_pin := s_pin t OR f\<rparr>"
  have "\<exists>s' t' evs. pin_emit ?s w = (Inr s', prints w evs) \<and> pin_emit ?t v = (Inr t', prints v (map swap_ab evs))
     \<and> flip_rel s' t'"
    by (rule pin_emit_flip) (use assms in \<open>simp_all add: bit_or_iff\<close>)
  with Some run assms(2) show ?thesis
    by (auto simp add: pin_store_def)
qed

lemma in_rand_flip:
  assumes "s_pin_data t = s_pin_data s" "s_master t = (\<not> s_master s)"
    and run: "pin_emit (s\<lparr>s_pin := 1 OR GOT_IN_RAND, s_pin_master := s_master s, s_pin_data := d\<rparr>) w = (Inr s', w')"
  shows "\<exists>t' evs. w' = prints w evs \<and>
     pin_emit (t\<lparr>s_pin := 1 OR GOT_IN_RAND, s_pin_master := s_master t, s_pin_data := d\<rparr>) v = (Inr t', prints v (map swap_ab evs))
     \<and> flip_rel s' t'"
proof -
  let ?s = "s\<lparr>s_pin := 1 OR GOT_IN_RAND, s_pin_master := s_master s, s_pin_data := d\<rparr>"
  let ?t = "t\<lparr>s_pin := 1 OR GOT_IN_RAND, s_pin_master := s_master t, s_pin_data := d\<rparr>"
  have "\<exists>s' t' evs. pin_emit ?s w = (Inr s', prints w evs) \<and> pin_emit ?t v = (Inr t', prints v (map swap_ab evs))
     \<and> flip_rel s' t'"
    by (rule pin_emit_flip) (use assms in \<open>simp_all add: armed_mask\<close>)
  with run show ?thesis by auto
qed

lemma prints_nil: "prints w [] = w"
  by (simp add: prints_def)

lemma flip_rel_master: "flip_rel s t \<Longrightarrow> flip_rel (s\<lparr>s_master := a\<rparr>) (t\<lparr>s_master := b\<rparr>)"
  by (simp add: flip_rel_def)

lemma do_pin_alt:
  "do_pin h s w op buf len =
     (if op = LMP_IN_RAND h then
        (case memcpy_slot (s_pin_data s) 0 buf len of
           None \<Rightarrow> (Inl Mem_overrun, w)
         | Some d \<Rightarrow>
             pin_emit (s\<lparr>s_pin := 1 OR GOT_IN_RAND, s_pin_master := s_master s,
                         s_pin_data := d\<rparr>) w)
      else (case pin_accept h s op of None \<Rightarrow> (Inr s, w)
            | Some (i, f) \<Rightarrow> pin_store s w i f buf len))"
  by (simp add: do_pin_def pin_accept_def)

lemma pin_accept_armed: "s_pin s = 1 \<Longrightarrow> pin_accept h s op = None"
  by (simp add: pin_accept_def GOT_vals)

lemma pin_accept_cong:
  "s_pin t = s_pin s \<Longrightarrow> (s_master t = s_pin_master t) = (s_master s = s_pin_master s) \<Longrightarrow>
   pin_accept h t op = pin_accept h s op"
  by (simp add: pin_accept_def)

lemma do_pin_armed_flip:
  assumes one: "s_pin s = 1" "s_pin t = 1" "s_pin_data t = s_pin_data s" "s_master t = (\<not> s_master s)"
    and run: "do_pin h s w op buf len = (Inr s', w')"
  shows "\<exists>t' evs. w' = prints w evs \<and> do_pin h t v op buf len = (Inr t', prints v (map swap_ab evs))
     \<and> flip_rel s' t'"
proof (cases "op = LMP_IN_RAND h")
  case True
  with run obtain d where d: "memcpy_slot (s_pin_data s) 0 buf len = Some d"
    and e: "pin_emit (s\<lparr>s_pin := 1 OR GOT_IN_RAND, s_pin_master := s_master s, s_pin_data := d\<rparr>) w = (Inr s', w')"
    by (auto simp add: do_pin_alt split: option.splits)
  from in_rand_flip [OF one(3) one(4) e, of v] True d one(3) show ?thesis
    by (simp add: do_pin_alt)
next
  case False
  with one run have "s' = s" "w' = prints w []" "do_pin h t v op buf len = (Inr t, prints v (map swap_ab []))"
    by (simp_all add: do_pin_alt pin_accept_armed prints_nil)
  moreover from one have "flip_rel s t"
    by (simp add: flip_rel_def armed_inv_def)
  ultimately show ?thesis by blast
qed

lemma do_pin_got_flip:
  assumes b: "bit (s_pin s) 1" "s_pin t = s_pin s" "s_pin_data t = s_pin_data s"
      "s_pin_master t = (\<not> s_pin_master s)" "s_master t = (\<not> s_master s)"
    and run: "do_pin h s w op buf len = (Inr s', w')"
  shows "\<exists>t' evs. w' = prints w evs \<and> do_pin h t v op buf len = (Inr t', prints v (map swap_ab evs))
     \<and> flip_rel s' t'"
proof (cases "op = LMP_IN_RAND h")
  case True
  with run obtain d where d: "memcpy_slot (s_pin_data s) 0 buf len = Some d"
    and e: "pin_emit (s\<lparr>s_pin := 1 OR GOT_IN_RAND, s_pin_master := s_master s, s_pin_data := d\<rparr>) w = (Inr s', w')"
    by (auto simp add: do_pin_alt split: option.splits)
  from in_rand_flip [OF b(3) b(5) e, of v] True d b(3) show ?thesis
    by (simp add: do_pin_alt)
next
  case False
  have acc: "pin_accept h t op = pin_accept h s op"
    by (rule pin_accept_cong) (use b in auto)
  show ?thesis
  proof (cases "pin_accept h s op")
    case None
    with False run acc have "s' = s" "w' = prints w []" "do_pin h t v op buf len = (Inr t, prints v (map swap_ab []))"
      by (simp_all add: do_pin_alt prints_nil)
    moreover from b have "flip_rel s t"
      by (simp add: flip_rel_def armed_inv_def)
    ultimately show ?thesis by blast
  next
    case (Some p)
    obtain i f where p: "p = (i, f)" by (cases p) auto
    from Some p False run have "pin_store s w i f buf len = (Inr s', w')"
      by (simp add: do_pin_alt)
    from pin_store_flip [OF b(2) b(3) b(1) b(4) this, of v] Some p False acc show ?thesis
      by (simp add: do_pin_alt)
  qed
qed

lemma observe_flip:
  assumes rel: "flip_rel s t" and run: "observe h s w (m, op, body) = (Inr s', w')"
  shows "\<exists>t' evs. w' = prints w evs \<and> observe h t v (\<not> m, op, body) = (Inr t', prints v (map swap_ab evs))
     \<and> flip_rel s' t'"
proof (cases "s_pin s = 1")
  case True
  with rel have "s_pin t = 1" "s_pin_data t = s_pin_data s"
    by (auto simp add: flip_rel_def)
  with True run show ?thesis
    using do_pin_armed_flip [of "s\<lparr>s_master := m\<rparr>" "t\<lparr>s_master := \<not> m\<rparr>" h w op body "int (length body)" s' w' v]
    by (simp add: observe_def)
next
  case False
  with rel have b: "bit (s_pin s) 1" "s_pin t = s_pin s" "s_pin_data t = s_pin_data s" "s_pin_master t = (\<not> s_pin_master s)"
    by (auto simp add: flip_rel_def armed_inv_def)
  then have nz: "s_pin s \<noteq> 0" by auto
  with b run show ?thesis
    using do_pin_got_flip [of "s\<lparr>s_master := m\<rparr>" "t\<lparr>s_master := \<not> m\<rparr>" h w op body "int (length body)" s' w' v]
    by (simp add: observe_def)
qed

lemma prints_prints: "prints (prints w a) b = prints w (a @ b)"
  by (simp add: prints_def)

lemma observe_all_flip:
  "flip_rel s t \<Longrightarrow> observe_all h s w xs = (Inr s', w') \<Longrightarrow>
   \<exists>t' evs. w' = prints w evs \<and> observe_all h t v (flip_roles xs) = (Inr t', prints v (map swap_ab evs))
     \<and> flip_rel s' t'"
proof (induction xs arbitrary: s t w v)
  case Nil
  then show ?case
    using prints_nil [of w] prints_nil [of v] by (auto simp add: flip_roles_def intro!: exI [of _ "[]"])
next
  case (Cons x xs)
  obtain m op body where x: "x = (m, op, body)" by (cases x) auto
  from Cons.prems(2) obtain s1 w1 where s1: "observe h s w x = (Inr s1, w1)"
    and rest: "observe_all h s1 w1 xs = (Inr s', w')"
    by (auto split: prod.splits sum.splits)
  from observe_flip [OF Cons.prems(1) s1 [unfolded x], of v] obtain t1 e1 where
    t1: "w1 = prints w e1" "observe h t v (\<not> m, op, body) = (Inr t1, prints v (map swap_ab e1))" "flip_rel s1 t1"
    by blast
  from Cons.IH [OF t1(3) rest, of "prints v (map swap_ab e1)"] obtain t' e2 where
    t2: "w' = prints w1 e2" "observe_all h t1 (prints v (map swap_ab e1)) (flip_roles xs) = (Inr t', prints (prints v (map swap_ab e1)) (map swap_ab e2))"
      "flip_rel s' t'"
    by blast
  from t1 t2 x show ?case
    by (auto simp add: flip_roles_def prints_prints intro!: exI [of _ "e1 @ e2"])
qed


lemma got_count_simps: "got_count 1 = 0" "got_count 3 = 1" "got_count 0xFF = 7"
  by (simp_all add: got_count_def)

lemma got_count_or_flag:
  "got_count (m OR GOT_COMB1) \<le> got_count m + 1"
  "got_count (m OR GOT_COMB2) \<le> got_count m + 1"
  "got_count (m OR GOT_AU_RAND1) \<le> got_count m + 1"
  "got_count (m OR GOT_SRES1) \<le> got_count m + 1"
  "got_count (m OR GOT_AU_RAND2) \<le> got_count m + 1"
  "got_count (m OR GOT_SRES2) \<le> got_count m + 1"
  by (simp_all add: got_count_def GOT_vals bit_or_iff)

lemma got_count_or: "is_flag f \<Longrightarrow> got_count (m OR f) \<le> got_count m + 1"
  unfolding is_flag_def using got_count_or_flag [of m] by blast

lemma pin_accept_flag: "pin_accept h s op = Some (i, f) \<Longrightarrow> is_flag f"
  by (simp add: pin_accept_def is_flag_def split: if_splits)

lemma pin_emit_quiet: "s_pin t \<noteq> 0xFF \<Longrightarrow> pin_emit t w = (Inr t, w)"
  by (simp add: pin_emit_def)

lemma do_pin_count:
  assumes "got_count (s_pin s) < 6" "do_pin h s w op buf len = (Inr s', w')"
  shows "w' = w \<and> got_count (s_pin s') \<le> got_count (s_pin s) + 1"
proof (cases "op = LMP_IN_RAND h")
  case True
  with assms show ?thesis
    by (auto simp add: do_pin_alt armed_mask pin_emit_quiet got_count_simps split: option.splits)
next
  case False
  show ?thesis
  proof (cases "pin_accept h s op")
    case None
    with False assms show ?thesis by (simp add: do_pin_alt)
  next
    case (Some p)
    obtain i f where p: "p = (i, f)" by (cases p) auto
    from Some p pin_accept_flag [of h s op i f] have "is_flag f"
      by simp
    then have c: "got_count (s_pin s OR f) \<le> got_count (s_pin s) + 1"
      by (rule got_count_or)
    with assms(1) have "s_pin s OR f \<noteq> 0xFF"
      using got_count_simps(3) by auto
    with Some p False assms(2) c show ?thesis
      by (auto simp add: do_pin_alt pin_store_def pin_emit_quiet split: option.splits)
  qed
qed

lemma observe_count:
  assumes "got_count (s_pin s) < 6" "observe h s w x = (Inr s', w')"
  shows "w' = w \<and> got_count (s_pin s') \<le> got_count (s_pin s) + 1"
proof -
  obtain m op body where x: "x = (m, op, body)" by (cases x) auto
  show ?thesis
  proof (cases "s_pin s = 0")
    case True
    with assms x show ?thesis by (auto simp add: observe_def)
  next
    case False
    with assms x do_pin_count [of "s\<lparr>s_master := m\<rparr>" h w op body "int (length body)" s' w']
    show ?thesis by (simp add: observe_def)
  qed
qed

lemma observe_all_count:
  "got_count (s_pin s) + length xs < 7 \<Longrightarrow> observe_all h s w xs = (Inr s', w') \<Longrightarrow>
   w' = w \<and> got_count (s_pin s') \<le> got_count (s_pin s) + length xs"
proof (induction xs arbitrary: s)
  case Nil
  then show ?case by simp
next
  case (Cons x xs)
  from Cons.prems(2) obtain s1 w1 where s1: "observe h s w x = (Inr s1, w1)"
    and rest: "observe_all h s1 w1 xs = (Inr s', w')"
    by (auto split: prod.splits sum.splits)
  from Cons.prems(1) have "got_count (s_pin s) < 6" by simp
  from observe_count [OF this s1] have a: "w1 = w" "got_count (s_pin s1) \<le> got_count (s_pin s) + 1"
    by auto
  with Cons.prems(1) have "got_count (s_pin s1) + length xs < 7" by simp
  from Cons.IH [OF this rest [unfolded a(1)]] a show ?case by simp
qed


lemma rerun_rel_alt:
  "rerun_rel A B a b \<longleftrightarrow>
     s_pin b = s_pin a \<and> armed_inv (s_pin a)
     \<and> (bit (s_pin a) 1 \<longrightarrow> s_pin_master b = s_pin_master a)
     \<and> mem_rel A B (s_pin_data a) (s_pin_data b)"
  by (simp add: rerun_rel_def mem_rel_def)

lemma memcpy_slot_rel:
  assumes "memcpy_slot d i buf len = Some d'" "mem_rel A B d e"
  shows "\<exists>e'. memcpy_slot e i buf len = Some e' \<and> mem_rel A B d' e'"
  using assms by (auto simp add: memcpy_slot_def mem_rel_def split: option.splits if_splits)

lemma pin_line_reset: "pin_line (s\<lparr>s_pin := m\<rparr>) = pin_line s"
  by (simp add: pin_line_def)

lemma pin_emit_rerun:
  assumes "s_pin b = s_pin a" "bit (s_pin a) 1" "s_pin_master b = s_pin_master a"
    "mem_rel A B (s_pin_data a) (s_pin_data b)"
  shows "\<exists>a' b' evs evs'. pin_emit a w = (Inr a', prints w evs) \<and> pin_emit b v = (Inr b', prints v evs')
     \<and> rerun_rel A B a' b' \<and> emit_rel a' b' evs evs'"
proof (cases "s_pin a = 0xFF")
  case True
  with assms have "pin_emit a w = (Inr (a\<lparr>s_pin := 1\<rparr>), prints w (pin_line (a\<lparr>s_pin := 1\<rparr>)))"
    "pin_emit b v = (Inr (b\<lparr>s_pin := 1\<rparr>), prints v (pin_line (b\<lparr>s_pin := 1\<rparr>)))"
    "rerun_rel A B (a\<lparr>s_pin := 1\<rparr>) (b\<lparr>s_pin := 1\<rparr>)"
    "emit_rel (a\<lparr>s_pin := 1\<rparr>) (b\<lparr>s_pin := 1\<rparr>) (pin_line (a\<lparr>s_pin := 1\<rparr>)) (pin_line (b\<lparr>s_pin := 1\<rparr>))"
    by (simp_all add: pin_emit_def pin_line_reset rerun_rel_alt armed_inv_def emit_rel_def)
  then show ?thesis by blast
next
  case False
  with assms have "pin_emit a w = (Inr a, prints w [])" "pin_emit b v = (Inr b, prints v [])"
    "rerun_rel A B a b" "emit_rel a b [] []"
    by (simp_all add: pin_emit_def prints_nil rerun_rel_alt armed_inv_def emit_rel_def)
  then show ?thesis by blast
qed

lemma pin_store_rerun:
  assumes "s_pin b = s_pin a" "bit (s_pin a) 1" "s_pin_master b = s_pin_master a"
    "mem_rel A B (s_pin_data a) (s_pin_data b)"
    and run: "pin_store a w i f buf len = (Inr a', w')"
  shows "\<exists>b' evs evs'. w' = prints w evs \<and> pin_store b v i f buf len = (Inr b', prints v evs')
     \<and> rerun_rel A B a' b' \<and> emit_rel a' b' evs evs'"
proof (cases "memcpy_slot (s_pin_data a) i buf len")
  case None
  with run show ?thesis by (simp add: pin_store_def)
next
  case (Some d)
  from memcpy_slot_rel [OF Some assms(4)] obtain e where
    e: "memcpy_slot (s_pin_data b) i buf len = Some e" "mem_rel A B d e" by blast
  let ?a = "a\<lparr>s_pin_data := d, s_pin := s_pin a OR f\<rparr>"
  let ?b = "b\<lparr>s_pin_data := e, s_pin := s_pin b OR f\<rparr>"
  have "\<exists>a' b' evs evs'. pin_emit ?a w = (Inr a', prints w evs) \<and> pin_emit ?b v = (Inr b', prints v evs')
     \<and> rerun_rel A B a' b' \<and> emit_rel a' b' evs evs'"
    by (rule pin_emit_rerun) (use assms e in \<open>simp_all add: bit_or_iff\<close>)
  with Some e run show ?thesis
    by (auto simp add: pin_store_def)
qed

lemma in_rand_rerun:
  assumes "s_master b = s_master a" "mem_rel A B (s_pin_data a) (s_pin_data b)"
    and d: "memcpy_slot (s_pin_data a) 0 buf len = Some d"
    and run: "pin_emit (a\<lparr>s_pin := 1 OR GOT_IN_RAND, s_pin_master := s_master a, s_pin_data := d\<rparr>) w = (Inr a', w')"
  shows "\<exists>e b' evs evs'. memcpy_slot (s_pin_data b) 0 buf len = Some e \<and> w' = prints w evs \<and>
     pin_emit (b\<lparr>s_pin := 1 OR GOT_IN_RAND, s_pin_master := s_master b, s_pin_data := e\<rparr>) v = (Inr b', prints v evs')
     \<and> rerun_rel A B a' b' \<and> emit_rel a' b' evs evs'"
proof -
  from memcpy_slot_rel [OF d assms(2)] obtain e where
    e: "memcpy_slot (s_pin_data b) 0 buf len = Some e" "mem_rel A B d e" by blast
  let ?a = "a\<lparr>s_pin := 1 OR GOT_IN_RAND, s_pin_master := s_master a, s_pin_data := d\<rparr>"
  let ?b = "b\<lparr>s_pin := 1 OR GOT_IN_RAND, s_pin_master := s_master b, s_pin_data := e\<rparr>"
  have "\<exists>a' b' evs evs'. pin_emit ?a w = (Inr a', prints w evs) \<and> pin_emit ?b v = (Inr b', prints v evs')
     \<and> rerun_rel A B a' b' \<and> emit_rel a' b' evs evs'"
    by (rule pin_emit_rerun) (use assms e in \<open>simp_all add: GOT_vals\<close>)
  with run e show ?thesis by auto
qed

lemma do_pin_rerun:
  assumes rel: "rerun_rel A B a b" and m: "s_master b = s_master a"
    and run: "do_pin h a w op buf len = (Inr a', w')"
  shows "\<exists>b' evs evs'. w' = prints w evs \<and> do_pin h b v op buf len = (Inr b', prints v evs')
     \<and> rerun_rel A B a' b' \<and> emit_rel a' b' evs evs'"
proof (cases "op = LMP_IN_RAND h")
  case True
  with run obtain d where d: "memcpy_slot (s_pin_data a) 0 buf len = Some d"
    and e: "pin_emit (a\<lparr>s_pin := 1 OR GOT_IN_RAND, s_pin_master := s_master a, s_pin_data := d\<rparr>) w = (Inr a', w')"
    by (auto simp add: do_pin_alt split: option.splits)
  from rel have "mem_rel A B (s_pin_data a) (s_pin_data b)" by (simp add: rerun_rel_alt)
  from in_rand_rerun [OF m this d e, of v] obtain e2 b' evs evs' where
    r: "memcpy_slot (s_pin_data b) 0 buf len = Some e2" "w' = prints w evs"
      "pin_emit (b\<lparr>s_pin := 1 OR GOT_IN_RAND, s_pin_master := s_master b, s_pin_data := e2\<rparr>) v
         = (Inr b', prints v evs')"
      "rerun_rel A B a' b'" "emit_rel a' b' evs evs'"
    by blast
  from True r(1,3) have "do_pin h b v op buf len = (Inr b', prints v evs')"
    by (simp add: do_pin_alt)
  with r show ?thesis by blast
next
  case False
  note nir = this
  have quiet: ?thesis if "pin_accept h a op = None" "pin_accept h b op = None"
  proof -
    from that nir run have "a' = a" "w' = prints w []" "do_pin h b v op buf len = (Inr b, prints v [])"
      by (simp_all add: do_pin_alt prints_nil)
    moreover have "emit_rel a b [] []" by (simp add: emit_rel_def)
    ultimately show ?thesis using rel by blast
  qed
  show ?thesis
  proof (cases "s_pin a = 1")
    case True
    with rel have "s_pin b = 1" by (simp add: rerun_rel_alt)
    with True show ?thesis by (intro quiet pin_accept_armed)
  next
    case False
    with rel have b: "bit (s_pin a) 1" "s_pin b = s_pin a" "s_pin_master b = s_pin_master a"
      "mem_rel A B (s_pin_data a) (s_pin_data b)"
      by (auto simp add: rerun_rel_alt armed_inv_def)
    have acc: "pin_accept h b op = pin_accept h a op"
      by (rule pin_accept_cong) (use b m in auto)
    show ?thesis
    proof (cases "pin_accept h a op")
      case None
      with acc show ?thesis by (intro quiet) simp_all
    next
      case (Some p)
      obtain i f where p: "p = (i, f)" by (cases p) auto
      from Some p nir run have "pin_store a w i f buf len = (Inr a', w')"
        by (simp add: do_pin_alt)
      from pin_store_rerun [OF b(2) b(1) b(3) b(4) this, of v] Some p nir acc show ?thesis
        by (simp add: do_pin_alt)
    qed
  qed
qed

lemma rerun_rel_master: "rerun_rel A B a b \<Longrightarrow> rerun_rel A B (a\<lparr>s_master := m\<rparr>) (b\<lparr>s_master := m\<rparr>)"
  by (simp add: rerun_rel_def)

lemma observe_rerun:
  assumes rel: "rerun_rel A B a b" and run: "observe h a w x = (Inr a', w')"
  shows "\<exists>b' evs evs'. w' = prints w evs \<and> observe h b v x = (Inr b', prints v evs')
     \<and> rerun_rel A B a' b' \<and> emit_rel a' b' evs evs'"
proof -
  obtain m op body where x: "x = (m, op, body)" by (cases x) auto
  from rel have pin: "s_pin b = s_pin a" by (simp add: rerun_rel_def)
  show ?thesis
  proof (cases "s_pin a = 0")
    case True
    with rel show ?thesis by (simp add: rerun_rel_def armed_inv_def)
  next
    case False
    from do_pin_rerun [OF rerun_rel_master [OF rel, of m], of h w op body "int (length body)" a' w' v]
      False pin run x
    show ?thesis by (simp add: observe_def)
  qed
qed


lemma prints_same: "prints w evs = w \<Longrightarrow> evs = []"
proof -
  assume "prints w evs = w"
  then have "out (prints w evs) = out w" by simp
  then show ?thesis by (simp add: prints_def)
qed

lemma emit_rel_nil: "emit_rel a b [] evs' \<Longrightarrow> evs' = []"
  by (auto simp add: emit_rel_def pin_line_def)

lemma observe_all_rerun:
  "rerun_rel A B a b \<Longrightarrow> observe_all h a w xs = (Inr a', w') \<Longrightarrow>
   \<exists>b' evs evs'. w' = prints w evs \<and> observe_all h b v xs = (Inr b', prints v evs')
     \<and> rerun_rel A B a' b' \<and> (evs = [] \<longrightarrow> evs' = [])"
proof (induction xs arbitrary: a b w v)
  case Nil
  then show ?case
    using prints_nil [of w] prints_nil [of v] by (auto intro!: exI [of _ "[]"])
next
  case (Cons x xs)
  from Cons.prems(2) obtain a1 w1 where a1: "observe h a w x = (Inr a1, w1)"
    and rest: "observe_all h a1 w1 xs = (Inr a', w')"
    by (auto split: prod.splits sum.splits)
  from observe_rerun [OF Cons.prems(1) a1, of v] obtain b1 e1 e1' where
    b1: "w1 = prints w e1" "observe h b v x = (Inr b1, prints v e1')" "rerun_rel A B a1 b1"
      "emit_rel a1 b1 e1 e1'"
    by blast
  from Cons.IH [OF b1(3) rest, of "prints v e1'"] obtain b' e2 e2' where
    b2: "w' = prints w1 e2" "observe_all h b1 (prints v e1') xs = (Inr b', prints (prints v e1') e2')"
      "rerun_rel A B a' b'" "e2 = [] \<longrightarrow> e2' = []"
    by blast
  have "w' = prints w (e1 @ e2)"
    using b1(1) b2(1) by (simp add: prints_prints)
  moreover have "observe_all h b v (x # xs) = (Inr b', prints v (e1' @ e2'))"
    using b1(2) b2(2) by (simp add: prints_prints)
  moreover have "e1 @ e2 = [] \<longrightarrow> e1' @ e2' = []"
    using b1(4) b2(4) by (auto dest: emit_rel_nil)
  ultimately show ?case using b2(3) by blast
qed

lemma observe_all_snoc:
  "observe_all h s w (ys @ [x]) =
     (case observe_all h s w ys of (Inl e, w') \<Rightarrow> (Inl e, w') | (Inr s', w') \<Rightarrow> observe h s' w' x)"
  by (induction ys arbitrary: s w) (auto split: prod.splits sum.splits)

lemma pin_line_cong:
  "s_pin_data b = s_pin_data a \<Longrightarrow> s_pin_master b = s_pin_master a \<Longrightarrow> pin_line b = pin_line a"
  by (simp add: pin_line_def)

lemma pin_line_not_nil: "pin_line s \<noteq> []"
  by (simp add: pin_line_def)


lemma split_last7: "length xs = 7 \<Longrightarrow> \<exists>ys x. xs = ys @ [x] \<and> length ys = 6"
proof -
  assume l: "length xs = 7"
  then have "xs \<noteq> []" by auto
  then have "xs = butlast xs @ [last xs]" by simp
  moreover from l have "length (butlast xs) = 6" by simp
  ultimately show ?thesis by blast
qed

lemma emit_rel_not_nil:
  "emit_rel a b e e' \<Longrightarrow> e \<noteq> [] \<Longrightarrow> e = pin_line a \<and> e' = pin_line b \<and> s_pin_master b = s_pin_master a \<and> s_pin a = 1"
  by (simp add: emit_rel_def)

lemma prints_neq: "prints w e \<noteq> w \<Longrightarrow> e \<noteq> []"
  using prints_nil by auto

lemma seven_inputs_rerun:
  assumes armed: "s_pin s = 1" and len: "length xs = 7"
    and run: "observe_all h s w xs = (Inr s1, w1)" and emitted: "w1 \<noteq> w"
  shows "s_pin s1 = 1 \<and> w1 = prints w (pin_line s1) \<and>
     (\<exists>s2. observe_all h s1 w1 xs = (Inr s2, prints w1 (pin_line s1)) \<and> s_pin s2 = 1)"
proof -
  from split_last7 [OF len] obtain ys x where xs: "xs = ys @ [x]" "length ys = 6"
    by blast
  from run xs(1) obtain sa wa where sa: "observe_all h s w ys = (Inr sa, wa)"
    and last: "observe h sa wa x = (Inr s1, w1)"
    by (auto simp add: observe_all_snoc split: prod.splits sum.splits)
  from armed xs(2) have "got_count (s_pin s) + length ys < 7"
    by (simp add: got_count_simps)
  from observe_all_count [OF this sa] have wa: "wa = w" by simp
  let ?A = "s_pin_data s" and ?B = "s_pin_data s1"
  from last wa have last': "observe h sa w x = (Inr s1, w1)" by simp
  from sa wa have sa': "observe_all h s w ys = (Inr sa, w)" by simp
  have "rerun_rel ?A ?A s s"
    using armed by (simp add: rerun_rel_def armed_inv_def)
  from observe_all_rerun [OF this sa', of w] sa' have r: "rerun_rel ?A ?A sa sa"
    by auto
  from observe_rerun [OF r last', of w] obtain b0 e0 e0' where
    e0: "w1 = prints w e0" "emit_rel s1 b0 e0 e0'" by blast
  from e0(1) emitted have "e0 \<noteq> []" using prints_neq by blast
  from emit_rel_not_nil [OF e0(2) this] e0(1) have pin1: "s_pin s1 = 1" and w1: "w1 = prints w (pin_line s1)"
    by simp_all
  have rel0: "rerun_rel ?A ?B s s1"
    using armed pin1 by (simp add: rerun_rel_def armed_inv_def)
  from observe_all_rerun [OF rel0 sa', of w1] obtain sb evs evs' where
    sb: "w = prints w evs" "observe_all h s1 w1 ys = (Inr sb, prints w1 evs')" "rerun_rel ?A ?B sa sb"
      "evs = [] \<longrightarrow> evs' = []"
    by blast
  from sb(1) have "evs = []" using prints_same [of w evs] by simp
  with sb(2,4) have sb': "observe_all h s1 w1 ys = (Inr sb, w1)"
    by (simp add: prints_nil)
  from observe_rerun [OF sb(3) last', of w1] obtain s2 e e' where
    s2: "w1 = prints w e" "observe h sb w1 x = (Inr s2, prints w1 e')" "rerun_rel ?A ?B s1 s2"
      "emit_rel s1 s2 e e'"
    by blast
  from s2(1) emitted have "e \<noteq> []" using prints_neq by blast
  from emit_rel_not_nil [OF s2(4) this] have e': "e' = pin_line s2" "s_pin_master s2 = s_pin_master s1"
    by simp_all
  from s2(3) have "\<forall>k. s_pin_data s2 k = s_pin_data s1 k" and p2: "s_pin s2 = s_pin s1"
    by (auto simp add: rerun_rel_def)
  then have "s_pin_data s2 = s_pin_data s1" by (simp add: fun_eq_iff)
  from pin_line_cong [OF this e'(2)] e'(1) have "e' = pin_line s1" by simp
  with s2(2) sb' xs(1) have "observe_all h s1 w1 xs = (Inr s2, prints w1 (pin_line s1))"
    by (simp add: observe_all_snoc)
  with pin1 w1 p2 show ?thesis by auto
qed

lemma run_collapse: "\<not> isl (fst r) \<Longrightarrow> r = (Inr (projr (fst r)), snd r)"
  by (cases r) (auto simp add: isl_def)

lemma pin_emit_cases:
  "pin_emit t w = (r, w') \<Longrightarrow>
   (r = Inr t \<and> w' = w \<and> s_pin t \<noteq> 0xFF) \<or>
   (s_pin t = 0xFF \<and> r = Inr (t\<lparr>s_pin := 1\<rparr>) \<and> w' = prints w (pin_line t))"
  by (auto simp add: pin_emit_def split: if_splits)

lemma do_pin_emits:
  assumes "do_pin h a w op buf len = (r, w')"
  shows "w' = w \<or> (\<exists>t. s_pin t = 0xFF \<and> w' = prints w (pin_line t) \<and> r = Inr (t\<lparr>s_pin := 1\<rparr>))"
proof (cases "op = LMP_IN_RAND h")
  case True
  with assms show ?thesis
    by (auto simp add: do_pin_alt split: option.splits dest!: pin_emit_cases)
next
  case False
  show ?thesis
  proof (cases "pin_accept h a op")
    case None
    with False assms show ?thesis by (simp add: do_pin_alt)
  next
    case (Some p)
    with False assms show ?thesis
      by (cases p) (auto simp add: do_pin_alt pin_store_def split: option.splits dest!: pin_emit_cases)
  qed
qed

lemma observe_emits:
  assumes "observe h a w x = (r, w')"
  shows "w' = w \<or> (\<exists>t. s_pin t = 0xFF \<and> w' = prints w (pin_line t) \<and> r = Inr (t\<lparr>s_pin := 1\<rparr>))"
proof -
  obtain m op body where x: "x = (m, op, body)" by (cases x) auto
  with assms do_pin_emits [of h "a\<lparr>s_master := m\<rparr>" w op body "int (length body)" r w']
  show ?thesis by (auto simp add: observe_def split: if_splits)
qed

lemma sres_inv_mono: "sres_inv h xs t \<Longrightarrow> set xs \<subseteq> set ys \<Longrightarrow> sres_inv h ys t"
  unfolding sres_inv_def by blast

lemma sres_inv_master: "sres_inv h xs (t\<lparr>s_master := m\<rparr>) = sres_inv h xs t"
  by (simp add: sres_inv_def)

lemma sres_inv_armed: "s_pin t = 1 \<Longrightarrow> sres_inv h xs t"
  by (simp add: sres_inv_def)

lemma memcpy_slot_holds:
  "memcpy_slot d i buf (int (length buf)) = Some d' \<Longrightarrow> slot_holds d' i buf"
  by (auto simp add: memcpy_slot_def bytes_at_def slot_holds_def split: if_splits)

lemma memcpy_slot_other:
  "memcpy_slot d i buf (int (length buf)) = Some d' \<Longrightarrow> length buf \<le> 16 \<Longrightarrow> i \<noteq> j \<Longrightarrow>
   slot_holds d j body \<Longrightarrow> length body \<le> 16 \<Longrightarrow> slot_holds d' j body"
  by (auto simp add: memcpy_slot_def bytes_at_def slot_holds_def split: if_splits)

lemma flag_bits:
  "bit (m OR GOT_COMB1) n \<longleftrightarrow> bit m n \<or> n = 2"
  "bit (m OR GOT_COMB2) n \<longleftrightarrow> bit m n \<or> n = 3"
  "bit (m OR GOT_AU_RAND1) n \<longleftrightarrow> bit m n \<or> n = 4"
  "bit (m OR GOT_SRES1) n \<longleftrightarrow> bit m n \<or> n = 5"
  "bit (m OR GOT_AU_RAND2) n \<longleftrightarrow> bit m n \<or> n = 6"
  "bit (m OR GOT_SRES2) n \<longleftrightarrow> bit m n \<or> n = 7"
  by (simp_all only: GOT_COMB1_def GOT_COMB2_def GOT_AU_RAND1_def GOT_SRES1_def
      GOT_AU_RAND2_def GOT_SRES2_def push_bit_of_1 bit_or_iff bit_exp_iff possible_bit_int simp_thms)


lemma in_rand_bits: "bit ((1::int) OR GOT_IN_RAND) n \<longleftrightarrow> n = 0 \<or> n = 1"
  by (simp only: GOT_IN_RAND_def push_bit_of_1 bit_or_iff bit_exp_iff bit_1_iff possible_bit_int simp_thms)

lemma sres_inv_reset: "sres_inv h xs (t\<lparr>s_pin := 1\<rparr>)"
  by (simp add: sres_inv_def)

lemma pin_emit_sres_inv:
  "pin_emit t w = (Inr s', w') \<Longrightarrow> sres_inv h xs t \<Longrightarrow> sres_inv h xs s'"
  by (auto simp add: pin_emit_def sres_inv_reset split: if_splits)


lemma short_bodiesD: "short_bodies xs \<Longrightarrow> (m, op, b) \<in> set xs \<Longrightarrow> length b \<le> 16"
  by (auto simp add: short_bodies_def)

lemma pin_accept_cases:
  assumes "pin_accept h s op = Some (i, f)"
  shows "(i \<in> {1, 2, 3, 4} \<and> f \<in> {GOT_COMB1, GOT_COMB2, GOT_AU_RAND1, GOT_AU_RAND2}) \<or>
     (i = 6 \<and> f = GOT_SRES1 \<and> op = LMP_SRES h \<and> s_master s \<noteq> s_pin_master s) \<or>
     (i = 5 \<and> f = GOT_SRES2 \<and> op = LMP_SRES h \<and> s_master s = s_pin_master s)"
  using assms by (simp add: pin_accept_def split: if_splits)

lemma store_sres_inv:
  assumes inv: "sres_inv h xs s" and sb: "short_bodies xs" and len: "length body \<le> 16"
    and acc: "pin_accept h s op = Some (i, f)"
    and d: "memcpy_slot (s_pin_data s) i body (int (length body)) = Some d"
  shows "sres_inv h (xs @ [(s_master s, op, body)]) (s\<lparr>s_pin_data := d, s_pin := s_pin s OR f\<rparr>)"
proof -
  let ?t = "s\<lparr>s_pin_data := d, s_pin := s_pin s OR f\<rparr>"
  let ?ys = "xs @ [(s_master s, op, body)]"
  have keep: "slot_holds d j b" if "slot_holds (s_pin_data s) j b" "(m, o', b) \<in> set xs" "i \<noteq> j" for j b m o'
    using memcpy_slot_other [OF d len that(3) that(1)] short_bodiesD [OF sb that(2)] by simp
  have new: "slot_holds d i body"
    using d by (rule memcpy_slot_holds)
  from pin_accept_cases [OF acc] consider
      (other) "i \<in> {1, 2, 3, 4}" "f \<in> {GOT_COMB1, GOT_COMB2, GOT_AU_RAND1, GOT_AU_RAND2}"
    | (resp) "i = 6" "f = GOT_SRES1" "op = LMP_SRES h" "s_master s \<noteq> s_pin_master s"
    | (init) "i = 5" "f = GOT_SRES2" "op = LMP_SRES h" "s_master s = s_pin_master s"
    by blast
  then show ?thesis
  proof cases
    case other
    then have b: "bit (s_pin ?t) 1 = bit (s_pin s) 1" "bit (s_pin ?t) 7 = bit (s_pin s) 7"
      "bit (s_pin ?t) 5 = bit (s_pin s) 5"
      by (auto simp add: flag_bits)
    from other have ne: "i \<noteq> 5" "i \<noteq> 6" by auto
    show ?thesis
      unfolding sres_inv_def b using inv keep [OF _ _ ne(1)] keep [OF _ _ ne(2)]
      by (simp add: sres_inv_def) blast
  next
    case resp
    then have b: "bit (s_pin ?t) 1 = bit (s_pin s) 1" "bit (s_pin ?t) 7 = bit (s_pin s) 7"
      by (auto simp add: flag_bits)
    from resp have x: "(\<not> s_pin_master s, LMP_SRES h, body) \<in> set ?ys" by auto
    have ne: "i \<noteq> 5" using resp by simp
    show ?thesis
      unfolding sres_inv_def b using inv keep [OF _ _ ne] x new resp(1)
      by (simp add: sres_inv_def) blast
  next
    case init
    then have b: "bit (s_pin ?t) 1 = bit (s_pin s) 1" "bit (s_pin ?t) 5 = bit (s_pin s) 5"
      by (auto simp add: flag_bits)
    from init have x: "(s_pin_master s, LMP_SRES h, body) \<in> set ?ys" by auto
    have ne: "i \<noteq> 6" using init by simp
    show ?thesis
      unfolding sres_inv_def b using inv keep [OF _ _ ne] x new init(1)
      by (simp add: sres_inv_def) blast
  qed
qed


lemma observe_sres_inv:
  assumes inv: "sres_inv h xs s" and sb: "short_bodies (xs @ [x])"
    and run: "observe h s w x = (Inr s', w')"
  shows "sres_inv h (xs @ [x]) s' \<and>
     (w' \<noteq> w \<longrightarrow> (\<exists>t. sres_inv h (xs @ [x]) t \<and> s_pin t = 0xFF \<and> w' = prints w (pin_line t)
        \<and> s' = t\<lparr>s_pin := 1\<rparr>))"
proof -
  obtain m op body where x: "x = (m, op, body)" by (cases x) auto
  let ?s = "s\<lparr>s_master := m\<rparr>"
  let ?ys = "xs @ [x]"
  from sb x have len: "length body \<le> 16" and sbx: "short_bodies xs"
    by (auto simp add: short_bodies_def)
  have "set xs \<subseteq> set ?ys" by auto
  from sres_inv_mono [OF inv this] have inv0: "sres_inv h ?ys ?s"
    by (simp add: sres_inv_master)
  have emit: ?thesis if t: "sres_inv h ?ys t" "pin_emit t w = (Inr s', w')" for t
  proof -
    from pin_emit_cases [OF t(2)] t(1) pin_emit_sres_inv [OF t(2) t(1)] show ?thesis
      using prints_nil by auto
  qed
  show ?thesis
  proof (cases "s_pin s = 0")
    case True
    with run x inv0 show ?thesis by (auto simp add: observe_def)
  next
    case False
    with run x have dp: "do_pin h ?s w op body (int (length body)) = (Inr s', w')"
      by (simp add: observe_def)
    show ?thesis
    proof (cases "op = LMP_IN_RAND h")
      case True
      with dp obtain d where d: "memcpy_slot (s_pin_data ?s) 0 body (int (length body)) = Some d"
        and e: "pin_emit (?s\<lparr>s_pin := 1 OR GOT_IN_RAND, s_pin_master := s_master ?s, s_pin_data := d\<rparr>) w = (Inr s', w')"
        by (auto simp add: do_pin_alt split: option.splits)
      have "sres_inv h ?ys (?s\<lparr>s_pin := 1 OR GOT_IN_RAND, s_pin_master := s_master ?s, s_pin_data := d\<rparr>)"
        using True x by (auto simp add: sres_inv_def in_rand_bits)
      from emit [OF this e] show ?thesis .
    next
      case nir: False
      show ?thesis
      proof (cases "pin_accept h ?s op")
        case None
        with nir dp inv0 show ?thesis by (simp add: do_pin_alt)
      next
        case (Some p)
        obtain i f where p: "p = (i, f)" by (cases p) auto
        from Some p nir dp obtain d where d: "memcpy_slot (s_pin_data ?s) i body (int (length body)) = Some d"
          and e: "pin_emit (?s\<lparr>s_pin_data := d, s_pin := s_pin ?s OR f\<rparr>) w = (Inr s', w')"
          by (auto simp add: do_pin_alt pin_store_def split: option.splits)
        have "sres_inv h xs ?s" using inv by (simp add: sres_inv_master)
        from store_sres_inv [OF this sbx len Some [unfolded p] d] x
        have "sres_inv h ?ys (?s\<lparr>s_pin_data := d, s_pin := s_pin ?s OR f\<rparr>)" by simp
        from emit [OF this e] show ?thesis .
      qed
    qed
  qed
qed

lemma observe_all_sres_inv:
  "sres_inv h pre s \<Longrightarrow> short_bodies (pre @ xs) \<Longrightarrow> observe_all h s w xs = (Inr s1, w1) \<Longrightarrow>
   sres_inv h (pre @ xs) s1"
proof (induction xs arbitrary: pre s w)
  case Nil
  then show ?case by simp
next
  case (Cons x xs)
  from Cons.prems(3) obtain s' w' where s': "observe h s w x = (Inr s', w')"
    and rest: "observe_all h s' w' xs = (Inr s1, w1)"
    by (auto split: prod.splits sum.splits)
  from Cons.prems(2) have sb: "short_bodies (pre @ [x])" "short_bodies ((pre @ [x]) @ xs)"
    by (auto simp add: short_bodies_def)
  from observe_sres_inv [OF Cons.prems(1) sb(1) s'] have "sres_inv h (pre @ [x]) s'" by simp
  from Cons.IH [OF this sb(2) rest] show ?case by simp
qed

lemma do_pin_switch:
  "do_pin h s w op buf len =
     (case pin_switch h s op buf len of
        Inl e \<Rightarrow> (Inl e, w)
      | Inr None \<Rightarrow> (Inr s, w)
      | Inr (Some t) \<Rightarrow> pin_emit t w)"
  by (simp add: do_pin_def pin_switch_def pin_store_def pin_copy_def split: option.splits)

lemma pin_line_prints: "prints w (pin_line t) \<noteq> w"
  using prints_same [of w "pin_line t"] pin_line_not_nil [of t] by blast

lemma observe_test:
  assumes "observe h s w x = (r, w2)"
  shows "(w2 \<noteq> w \<longleftrightarrow> test_mask h s x = Some 0xFF) \<and>
     (w2 \<noteq> w \<longrightarrow> (\<exists>s2. r = Inr s2 \<and> s_pin s2 = 1 \<and> w2 = prints w (pin_line s2))) \<and>
     (w2 = w \<longrightarrow> (\<forall>s2. r = Inr s2 \<longrightarrow>
        s_pin s2 = (case test_mask h s x of Some m \<Rightarrow> m | None \<Rightarrow> s_pin s)))"
proof -
  obtain m op body where x: "x = (m, op, body)" by (cases x) auto
  show ?thesis
  proof (cases "s_pin s = 0")
    case True
    with assms x show ?thesis by (auto simp add: observe_def test_mask_def)
  next
    case False
    let ?sw = "pin_switch h (s\<lparr>s_master := m\<rparr>) op body (int (length body))"
    from False assms x have d: "(case ?sw of Inl e \<Rightarrow> (Inl e, w) | Inr None \<Rightarrow> (Inr (s\<lparr>s_master := m\<rparr>), w)
        | Inr (Some t) \<Rightarrow> pin_emit t w) = (r, w2)"
      by (simp add: observe_def do_pin_switch)
    show ?thesis
    proof (cases ?sw)
      case (Inl e)
      with d False x show ?thesis by (auto simp add: test_mask_def)
    next
      case (Inr opt)
      show ?thesis
      proof (cases opt)
        case None
        with Inr d False x show ?thesis by (auto simp add: test_mask_def)
      next
        case (Some t)
        with Inr d have e: "pin_emit t w = (r, w2)" by simp
        from Some Inr False x have tm: "test_mask h s x = Some (s_pin t)"
          by (simp add: test_mask_def)
        show ?thesis
        proof (cases "s_pin t = 0xFF")
          case True
          with e have "r = Inr (t\<lparr>s_pin := 1\<rparr>)" "w2 = prints w (pin_line t)"
            by (simp_all add: pin_emit_def)
          with True tm pin_line_prints [of w t] show ?thesis
            by (simp add: pin_line_reset)
        next
          case nf: False
          with e have "r = Inr t" "w2 = w" by (simp_all add: pin_emit_def)
          with nf tm show ?thesis by simp
        qed
      qed
    qed
  qed
qed

lemma first_emission:
  "observe_all h s w xs = (Inr s1, w1) \<Longrightarrow> w1 \<noteq> w \<Longrightarrow>
   \<exists>ys x zs sa. xs = ys @ x # zs \<and> observe_all h s w ys = (Inr sa, w) \<and> test_mask h sa x = Some 0xFF"
proof (induction xs arbitrary: s)
  case Nil
  then show ?case by simp
next
  case (Cons x xs)
  obtain r w' where ob: "observe h s w x = (r, w')" by (cases "observe h s w x") auto
  with Cons.prems(1) obtain s' where r: "r = Inr s'" by (cases r) auto
  with ob Cons.prems(1) have rest: "observe_all h s' w' xs = (Inr s1, w1)" by simp
  show ?case
  proof (cases "w' = w")
    case True
    with rest Cons.prems(2) Cons.IH [of s'] obtain ys y zs sa where
      a: "xs = ys @ y # zs" "observe_all h s' w ys = (Inr sa, w)" "test_mask h sa y = Some 0xFF"
      by blast
    from ob r True a(2) have "observe_all h s w (x # ys) = (Inr sa, w)" by simp
    with a(1,3) show ?thesis
      by (intro exI [of _ "x # ys"] exI [of _ y] exI [of _ zs] exI [of _ sa]) simp
  next
    case False
    with observe_test [OF ob] have "test_mask h s x = Some 0xFF" by blast
    then show ?thesis
      by (intro exI [of _ "[]"] exI [of _ x] exI [of _ xs] exI [of _ s]) simp
  qed
qed

section \<open>What each function adds to the trace\<close>

lemma adds_refl: "adds Q w w"
  by (simp add: adds_def)

lemma adds_trans: "adds Q w w1 \<Longrightarrow> adds Q w1 w2 \<Longrightarrow> adds Q w w2"
  by (auto simp add: adds_def)

lemma adds_printf: "Q (Some f) \<Longrightarrow> adds Q w (printf w f a)"
  by (simp add: adds_def printf_def fmt_of_def)

lemma adds_prints: "\<forall>e \<in> set evs. Q (fmt_of e) \<Longrightarrow> adds Q w (prints w evs)"
  by (simp add: adds_def prints_def)

lemma adds_write: "Q None \<Longrightarrow> adds Q w (snd (write_dump w fd x))"
  by (auto simp add: adds_def write_dump_def fmt_of_def split: option.splits nat.splits)

lemma adds_andthen:
  assumes "adds Q w (snd r)" and "\<And>a w1. adds Q w1 (snd (f a w1))"
  shows "adds Q w (snd (andthen r f))"
proof (cases r)
  case (Pair x w1)
  show ?thesis
  proof (cases x)
    case (Inl e)
    with Pair assms(1) show ?thesis by (simp add: andthen_def)
  next
    case (Inr a)
    with Pair assms(1) assms(2) [of w1 a] show ?thesis
      by (auto simp add: andthen_def intro: adds_trans)
  qed
qed

lemma hexdump_fmt: "Q (Some ''%.2X '') \<Longrightarrow> Q (Some NL) \<Longrightarrow> \<forall>e \<in> set (hexdump bs). Q (fmt_of e)"
  by (auto simp add: hexdump_def fmt_of_def)

lemma pin_line_fmt:
  assumes "\<forall>f \<in> set pin_formats. Q (Some f)"
  shows "\<forall>e \<in> set (pin_line t). Q (fmt_of e)"
  using assms by (auto simp add: pin_line_def print_slot_def fmt_of_def pin_formats_def)

lemma do_pin_adds:
  assumes "\<forall>f \<in> set pin_formats. Q (Some f)"
  shows "adds Q w (snd (do_pin h s w op buf len))"
proof -
  obtain r w' where r: "do_pin h s w op buf len = (r, w')" by (cases "do_pin h s w op buf len") auto
  from do_pin_emits [OF r] pin_line_fmt [OF assms] r show ?thesis
    by (auto intro: adds_refl adds_prints)
qed

lemma dump_lmp_adds: "Q None \<Longrightarrow> adds Q w (snd (dump_lmp s w buf len))"
  by (auto simp add: dump_lmp_def Let_def adds_refl intro!: adds_andthen adds_write split: option.splits)

lemma lmp_decode_adds:
  assumes "\<forall>f \<in> set lmp_formats. Q (Some f)" and "s_pin s \<noteq> 0 \<longrightarrow> (\<forall>f \<in> set pin_formats. Q (Some f))"
  shows "adds Q w (snd (lmp_decode h s w buf len))"
proof -
  have hd: "\<forall>e \<in> set (hexdump bs). Q (fmt_of e)" for bs
    using assms(1) by (intro hexdump_fmt) (simp_all add: lmp_formats_def)
  have p: "adds Q v (printf v ''LMP Tid %d Op1 %d'' a)" "adds Q v (printf v '' Op2 %d'' a)"
    "adds Q v (printf v '': '' a)" for v a
    using assms(1) by (simp_all add: adds_printf lmp_formats_def)
  have tail: "adds Q v (snd (case bytes_at data l of None \<Rightarrow> (Inl Mem_overrun, v)
     | Some bs \<Rightarrow> (let w4 = prints v (hexdump bs) in
         if s_pin s \<noteq> 0 then do_pin h s w4 op1 data l else (Inr s, w4))))" for v data l op1
    using assms(2) hd
    by (auto simp add: Let_def adds_refl adds_prints split: option.splits
        intro: adds_trans [OF adds_prints do_pin_adds])
  have pre: "adds Q v (if c then printf (printf v ''LMP Tid %d Op1 %d'' a) '' Op2 %d'' b
      else printf v ''LMP Tid %d Op1 %d'' a)" for v c a b
    using adds_trans [OF p(1) p(2)] p(1) by simp
  have body: "adds Q v (snd ((\<lambda>(op2, data, len) w.
       (let w1 = printf w ''LMP Tid %d Op1 %d'' [tid, op1];
            w2 = (if op2 \<noteq> - 1 then printf w1 '' Op2 %d'' [op2] else w1);
            w3 = printf w2 '': '' []
        in
        case bytes_at data len of
          None \<Rightarrow> (Inl Mem_overrun, w3)
        | Some bs \<Rightarrow>
            (let w4 = prints w3 (hexdump bs) in
             if s_pin s \<noteq> 0 then do_pin h s w4 op1 data len
             else (Inr s, w4)))) a v))" for a v tid op1
  proof -
    obtain op2 data l where a: "a = (op2, data, l)" by (cases a) auto
    let ?w3 = "printf (if op2 \<noteq> - 1 then printf (printf v ''LMP Tid %d Op1 %d'' [tid, op1]) '' Op2 %d'' [op2]
        else printf v ''LMP Tid %d Op1 %d'' [tid, op1]) '': '' []"
    have "adds Q v ?w3"
      using pre p(3) by (blast intro: adds_trans)
    from adds_trans [OF this tail [where v = ?w3 and data = data and l = l and ?op1.0 = op1]] a
    show ?thesis
      by (simp add: Let_def)
  qed
  show ?thesis
  proof (cases buf)
    case Nil
    then show ?thesis by (simp add: lmp_decode_def adds_refl)
  next
    case (Cons b data)
    show ?thesis
      unfolding lmp_decode_def Cons list.case Let_def
      apply (split if_split, intro conjI impI)
       apply (simp add: adds_refl)
      apply (rule adds_andthen)
       apply (simp add: adds_refl split: list.splits)
      apply (rule body [unfolded Let_def])
      done
  qed
qed

lemma process_lmp_adds:
  assumes "Q None" "\<forall>f \<in> set lmp_formats. Q (Some f)"
    and "s_pin s \<noteq> 0 \<longrightarrow> (\<forall>f \<in> set pin_formats. Q (Some f))"
  shows "adds Q w (snd (process_lmp h s w buf len))"
  unfolding process_lmp_def
  by (rule adds_andthen) (use assms in \<open>simp_all add: adds_refl dump_lmp_adds lmp_decode_adds\<close>)

lemma adds_drop:
  "adds Q w w' \<Longrightarrow> \<not> Q (fmt_of e) \<Longrightarrow> e \<notin> set (drop (length (out w)) (out w'))"
  by (auto simp add: adds_def)

section \<open>The frontline decoder: lemmas\<close>

lemma process_l2cap_adds:
  assumes "Q None" "Q (Some ''L2CAP: '')" "Q (Some ''%.2X '')" "Q (Some NL)"
  shows "adds Q w (snd (process_l2cap s w buf len))"
proof -
  have hd: "\<forall>e \<in> set (hexdump bs). Q (fmt_of e)" for bs
    using assms by (intro hexdump_fmt)
  have a: "adds Q w (prints (printf w ''L2CAP: '' []) (hexdump bs))" for bs
    using adds_trans [OF adds_printf adds_prints] assms(2) hd by blast
  show ?thesis
    unfolding process_l2cap_def Let_def
    by (auto simp add: a adds_printf assms split: option.splits
        intro!: adds_trans [OF a] adds_andthen adds_write adds_refl)
qed

lemma process_dv_adds:
  assumes "Q (Some ''DV: '')" "Q (Some ''%.2X '')" "Q (Some NL)"
  shows "adds Q w (snd (process_dv s w buf len))"
proof -
  have hd: "\<forall>e \<in> set (hexdump bs). Q (fmt_of e)" for bs
    using assms by (intro hexdump_fmt)
  have a: "adds Q w (prints (printf w ''DV: '' []) (hexdump bs))" for bs
    using adds_trans [OF adds_printf adds_prints] assms(1) hd by blast
  show ?thesis
    unfolding process_dv_def
    by (auto simp add: a adds_printf assms split: option.splits)
qed

lemma process_payload_adds:
  assumes "Q None" "\<forall>f \<in> set payload_formats. Q (Some f)"
  shows "adds Q w (snd (process_payload h s w buf len))"
proof -
  from assms(2) have f: "Q (Some ''L2CAP: '')" "Q (Some ''DV: '')" "Q (Some ''%.2X '')" "Q (Some NL)"
    "\<forall>f \<in> set lmp_formats. Q (Some f)" "\<forall>f \<in> set pin_formats. Q (Some f)"
    by (simp_all add: payload_formats_def lmp_formats_def)
  show ?thesis
    unfolding process_payload_def
    using process_dv_adds [of Q, OF f(2,3,4)] process_l2cap_adds [of Q, OF assms(1) f(1,3,4)]
      process_lmp_adds [of Q, OF assms(1) f(5)] f(6)
    by simp
qed

lemma do_pin_keeps_filters:
  "do_pin h s w op buf len = (Inr s', w') \<Longrightarrow>
   s_ignore s' = s_ignore s \<and> s_ignore_zero s' = s_ignore_zero s"
  by (auto simp add: do_pin_alt pin_store_def pin_emit_def split: option.splits if_splits)

lemma lmp_decode_keeps_filters:
  "lmp_decode h s w buf len = (Inr s', w') \<Longrightarrow>
   s_ignore s' = s_ignore s \<and> s_ignore_zero s' = s_ignore_zero s"
  by (auto simp add: lmp_decode_def Let_def andthen_def split: list.splits option.splits if_splits
      dest: do_pin_keeps_filters)

lemma process_payload_keeps_filters:
  assumes "process_payload h s w buf len = (Inr s', w')"
  shows "s_ignore s' = s_ignore s \<and> s_ignore_zero s' = s_ignore_zero s"
proof -
  have dv: "process_dv s w buf len = (Inr s', w') \<Longrightarrow> s' = s"
    by (auto simp add: process_dv_def split: option.splits)
  have l2: "process_l2cap s w buf len = (Inr s', w') \<Longrightarrow> s' = s"
    by (auto simp add: process_l2cap_def Let_def andthen_def split: option.splits if_splits prod.splits sum.splits)
  have lmp: "process_lmp h s w buf len = (Inr s', w') \<Longrightarrow>
     s_ignore s' = s_ignore s \<and> s_ignore_zero s' = s_ignore_zero s"
    by (auto simp add: process_lmp_def andthen_def split: if_splits prod.splits sum.splits
        dest: lmp_decode_keeps_filters)
  from assms dv l2 lmp show ?thesis
    by (auto simp add: process_payload_def split: if_splits)
qed

lemma HL_not_payload: "HL_format \<notin> set payload_formats"
  by (simp add: payload_formats_def lmp_formats_def pin_formats_def HL_format_def NL_def)

lemma payload_no_HL:
  assumes "process_payload h s w buf len = (r, w')"
  shows "\<exists>P. out w' = out w @ P \<and> (\<forall>e \<in> set P. \<not> is_HL e)"
proof -
  have "adds (\<lambda>f. f \<noteq> Some HL_format) w (snd (process_payload h s w buf len))"
    by (rule process_payload_adds) (use HL_not_payload in auto)
  with assms show ?thesis by (auto simp add: adds_def is_HL_def)
qed

lemma frontline_step:
  assumes v: "frag_valid h s (fp_at h buf)"
    and run: "process_frontline (Suc n) h s w buf len = Some (Inr s', w')"
  shows "\<exists>s2 w2 P.
     out w2 = out w @ HL_line h (fp_session h s (fp_at h buf)) (fp_at h buf)
                # (if fp_plen h (fp_at h buf) \<noteq> 0 then Printf '' '' [] # P else [Printf NL []]) \<and>
     (\<forall>e \<in> set P. \<not> is_HL e) \<and>
     s_ignore s2 = s_ignore s \<and> s_ignore_zero s2 = s_ignore_zero s \<and>
     0 \<le> len - fp_hdrlen (fp_at h buf) - fp_plen h (fp_at h buf) \<and>
     (if len - fp_hdrlen (fp_at h buf) - fp_plen h (fp_at h buf) \<noteq> 0
      then process_frontline n h s2 w2
             (drop (nat (fp_hdrlen (fp_at h buf)) + nat (fp_plen h (fp_at h buf))) buf)
             (len - fp_hdrlen (fp_at h buf) - fp_plen h (fp_at h buf)) = Some (Inr s', w')
      else s' = s2 \<and> w' = w2)"
proof -
  let ?fp = "fp_at h buf"
  let ?hlen = "fp_hdrlen ?fp" and ?plen = "fp_plen h ?fp"
  let ?s1 = "fp_session h s ?fp"
  let ?w1 = "prints w [HL_line h ?s1 ?fp]"
  let ?pay = "if ?plen \<noteq> 0
      then process_payload h ?s1 (printf ?w1 '' '' []) (drop (nat ?hlen) buf) ?plen
      else (Inr ?s1, printf ?w1 NL [])"
  obtain x w2 where pay: "?pay = (x, w2)" by (cases ?pay) auto
  from v have v': "\<not> (?hlen \<noteq> HLEN_BC2 h \<and> ?hlen \<noteq> HLEN_BC4 h)" "fp_type h ?fp \<notin> set (s_ignore s)"
    "\<not> (s_ignore_zero s \<and> ?plen = 0)"
    by (auto simp add: frag_valid_def)
  from run v' have a: "0 \<le> len - ?hlen" "?plen \<le> len - ?hlen"
    by (auto simp add: Let_def split: if_splits)
  from run v' a pay obtain s2 where x: "x = Inr s2"
    by (cases x) (auto simp add: Let_def)
  from run v' a pay x have rest: "0 \<le> len - ?hlen - ?plen"
    "if len - ?hlen - ?plen \<noteq> 0
     then process_frontline n h s2 w2 (drop (nat ?hlen + nat ?plen) buf) (len - ?hlen - ?plen) = Some (Inr s', w')
     else s' = s2 \<and> w' = w2"
    by (auto simp add: Let_def split: if_splits)
  have filt: "s_ignore s2 = s_ignore s \<and> s_ignore_zero s2 = s_ignore_zero s"
  proof (cases "?plen = 0")
    case True
    with pay x show ?thesis by (auto simp add: fp_session_def)
  next
    case False
    with pay x process_payload_keeps_filters [of h ?s1 "printf ?w1 '' '' []" "drop (nat ?hlen) buf" ?plen s2 w2]
    show ?thesis by (simp add: fp_session_def)
  qed
  have "\<exists>P. out w2 = out w @ HL_line h ?s1 ?fp # (if ?plen \<noteq> 0 then Printf '' '' [] # P else [Printf NL []])
      \<and> (\<forall>e \<in> set P. \<not> is_HL e)"
  proof (cases "?plen = 0")
    case True
    with pay have "out w2 = out w @ HL_line h ?s1 ?fp # [Printf NL []]"
      by (auto simp add: prints_def printf_def)
    with True show ?thesis by (auto intro: exI [of _ "[]"])
  next
    case False
    with pay have "process_payload h ?s1 (printf ?w1 '' '' []) (drop (nat ?hlen) buf) ?plen = (x, w2)"
      by simp
    from payload_no_HL [OF this] obtain P where
      P: "out w2 = out (printf ?w1 '' '' []) @ P" "\<forall>e \<in> set P. \<not> is_HL e" by blast
    from P(1) have "out w2 = out w @ HL_line h ?s1 ?fp # (Printf '' '' [] # P)"
      by (simp add: prints_def printf_def)
    with False P(2) show ?thesis by auto
  qed
  with filt rest show ?thesis by blast
qed

lemma not_HL_simps: "\<not> is_HL (Printf '' '' a)" "\<not> is_HL (Printf NL a)"
  by (simp_all add: is_HL_def fmt_of_def HL_format_def NL_def)

lemma is_HL_line: "is_HL (HL_line h s1 fp)"
  by (simp add: is_HL_def fmt_of_def HL_line_def)

lemma after_HL_free:
  "\<forall>e \<in> set P. \<not> is_HL e \<Longrightarrow>
   \<forall>e \<in> set (if c then Printf '' '' [] # P else [Printf NL []]). \<not> is_HL e"
  by (simp add: not_HL_simps)

lemma hl_frames_HL:
  "hl_frames (HL_line h s1 fp # P) = (fp_hdrlen fp, fp_plen h fp) # hl_frames P"
  by (simp add: hl_frames_def HL_line_def is_HL_def fmt_of_def fp_hdrlen_def)

lemma hl_frames_none: "\<forall>e \<in> set P. \<not> is_HL e \<Longrightarrow> hl_frames (P @ evs) = hl_frames evs"
  by (simp add: hl_frames_def filter_empty_conv [THEN iffD2])

lemma hl_frames_nil: "hl_frames [] = []"
  by (simp add: hl_frames_def)

lemma frag_valid_cong:
  "s_ignore s2 = s_ignore s \<Longrightarrow> s_ignore_zero s2 = s_ignore_zero s \<Longrightarrow>
   frag_valid h s2 fp = frag_valid h s fp"
  by (simp add: frag_valid_def)

lemma frontline_decomposition:
  "process_frontline n h s w buf len = Some (Inr s', w') \<Longrightarrow>
   \<forall>fp \<in> set (fragments n h buf len). frag_valid h s fp \<Longrightarrow>
   \<exists>evs. out w' = out w @ evs \<and>
      hl_frames evs = map (\<lambda>fp. (fp_hdrlen fp, fp_plen h fp)) (fragments n h buf len) \<and>
      (\<Sum>fp \<leftarrow> fragments n h buf len. fp_hdrlen fp + fp_plen h fp) = len"
proof (induction n arbitrary: s w buf len)
  case 0
  then show ?case by simp
next
  case (Suc n)
  let ?fp = "fp_at h buf"
  let ?rem = "len - fp_hdrlen ?fp - fp_plen h ?fp"
  let ?tl = "drop (nat (fp_hdrlen ?fp) + nat (fp_plen h ?fp)) buf"
  from Suc.prems(2) have v: "frag_valid h s ?fp" by (simp add: Let_def)
  from frontline_step [OF v Suc.prems(1)] obtain s2 w2 P0 where
    st0: "out w2 = out w @ HL_line h (fp_session h s ?fp) ?fp
            # (if fp_plen h ?fp \<noteq> 0 then Printf '' '' [] # P0 else [Printf NL []])"
      "\<forall>e \<in> set P0. \<not> is_HL e"
      "s_ignore s2 = s_ignore s" "s_ignore_zero s2 = s_ignore_zero s" "0 \<le> ?rem"
      "if ?rem \<noteq> 0 then process_frontline n h s2 w2 ?tl ?rem = Some (Inr s', w') else s' = s2 \<and> w' = w2"
    by blast
  define P where "P = (if fp_plen h ?fp \<noteq> 0 then Printf '' '' [] # P0 else [Printf NL []])"
  from st0 after_HL_free [OF st0(2)] have
    st: "out w2 = out w @ HL_line h (fp_session h s ?fp) ?fp # P" "\<forall>e \<in> set P. \<not> is_HL e"
      "s_ignore s2 = s_ignore s" "s_ignore_zero s2 = s_ignore_zero s" "0 \<le> ?rem"
      "if ?rem \<noteq> 0 then process_frontline n h s2 w2 ?tl ?rem = Some (Inr s', w') else s' = s2 \<and> w' = w2"
    unfolding P_def by simp_all
  show ?case
  proof (cases "?rem = 0")
    case True
    with st(6) have "w' = w2" by simp
    with st(1) have "out w' = out w @ (HL_line h (fp_session h s ?fp) ?fp # P @ [])" by simp
    moreover have "hl_frames (HL_line h (fp_session h s ?fp) ?fp # P @ []) = [(fp_hdrlen ?fp, fp_plen h ?fp)]"
      using hl_frames_none [OF st(2), of "[]"] by (simp add: hl_frames_HL hl_frames_nil)
    ultimately show ?thesis using True by (auto simp add: Let_def)
  next
    case False
    with st(5) have pos: "0 < ?rem" by simp
    from False st(6) have run: "process_frontline n h s2 w2 ?tl ?rem = Some (Inr s', w')" by simp
    from pos have fr: "fragments (Suc n) h buf len = ?fp # fragments n h ?tl ?rem"
      by (simp add: Let_def)
    from Suc.prems(2) fr have "\<forall>fp \<in> set (fragments n h ?tl ?rem). frag_valid h s2 fp"
      by (simp add: frag_valid_cong [OF st(3) st(4)])
    from Suc.IH [OF run this] obtain evs where
      e: "out w' = out w2 @ evs"
        "hl_frames evs = map (\<lambda>fp. (fp_hdrlen fp, fp_plen h fp)) (fragments n h ?tl ?rem)"
        "(\<Sum>fp \<leftarrow> fragments n h ?tl ?rem. fp_hdrlen fp + fp_plen h fp) = ?rem"
      by blast
    from e(1) st(1) have "out w' = out w @ (HL_line h (fp_session h s ?fp) ?fp # P @ evs)" by simp
    moreover have "hl_frames (HL_line h (fp_session h s ?fp) ?fp # P @ evs)
        = map (\<lambda>fp. (fp_hdrlen fp, fp_plen h fp)) (fragments (Suc n) h buf len)"
      using hl_frames_none [OF st(2), of evs] e(2) fr by (simp add: hl_frames_HL)
    moreover have "(\<Sum>fp \<leftarrow> fragments (Suc n) h buf len. fp_hdrlen fp + fp_plen h fp) = len"
      using e(3) fr by simp
    ultimately show ?thesis by blast
  qed
qed

lemma frontline_None:
  assumes "process_frontline (Suc n) h s w buf len = None"
  shows "\<exists>s2 w2.
     (fp_hdrlen (fp_at h buf) = HLEN_BC2 h \<or> fp_hdrlen (fp_at h buf) = HLEN_BC4 h) \<and>
     0 < len - fp_hdrlen (fp_at h buf) - fp_plen h (fp_at h buf) \<and>
     process_frontline n h s2 w2
       (drop (nat (fp_hdrlen (fp_at h buf)) + nat (fp_plen h (fp_at h buf))) buf)
       (len - fp_hdrlen (fp_at h buf) - fp_plen h (fp_at h buf)) = None"
proof -
  let ?fp = "fp_at h buf"
  let ?hlen = "fp_hdrlen ?fp" and ?plen = "fp_plen h ?fp"
  let ?s1 = "fp_session h s ?fp"
  let ?w1 = "prints w [HL_line h ?s1 ?fp]"
  let ?pay = "if ?plen \<noteq> 0
      then process_payload h ?s1 (printf ?w1 '' '' []) (drop (nat ?hlen) buf) ?plen
      else (Inr ?s1, printf ?w1 NL [])"
  obtain x w2 where pay: "?pay = (x, w2)" by (cases ?pay) auto
  from assms have v: "?hlen = HLEN_BC2 h \<or> ?hlen = HLEN_BC4 h"
    by (auto simp add: Let_def split: if_splits)
  from assms v have a: "fp_type h ?fp \<notin> set (s_ignore s)" "\<not> (s_ignore_zero s \<and> ?plen = 0)"
    by (auto simp add: Let_def split: if_splits)
  from assms v a have b: "0 \<le> len - ?hlen" "?plen \<le> len - ?hlen"
    by (auto simp add: Let_def split: if_splits)
  from assms v a b pay obtain s2 where x: "x = Inr s2"
    by (cases x) (auto simp add: Let_def)
  from assms v a b pay x have "0 < len - ?hlen - ?plen \<and>
     process_frontline n h s2 w2 (drop (nat ?hlen + nat ?plen) buf) (len - ?hlen - ?plen) = None"
    by (auto simp add: Let_def split: if_splits)
  with v show ?thesis by blast
qed

lemma frontline_fuel:
  "0 < HLEN_BC2 h \<Longrightarrow> 0 < HLEN_BC4 h \<Longrightarrow> nat len < n \<Longrightarrow>
   process_frontline n h s w buf len \<noteq> None"
proof (induction n arbitrary: s w buf len)
  case 0
  then show ?case by simp
next
  case (Suc n)
  show ?case
  proof
    assume "process_frontline (Suc n) h s w buf len = None"
    from frontline_None [OF this] obtain s2 w2 where
      n: "fp_hdrlen (fp_at h buf) = HLEN_BC2 h \<or> fp_hdrlen (fp_at h buf) = HLEN_BC4 h"
        "0 < len - fp_hdrlen (fp_at h buf) - fp_plen h (fp_at h buf)"
        "process_frontline n h s2 w2
           (drop (nat (fp_hdrlen (fp_at h buf)) + nat (fp_plen h (fp_at h buf))) buf)
           (len - fp_hdrlen (fp_at h buf) - fp_plen h (fp_at h buf)) = None"
      by blast
    have "0 \<le> fp_plen h (fp_at h buf)"
      by (simp add: fp_plen_def)
    with n(1,2) Suc.prems have "nat (len - fp_hdrlen (fp_at h buf) - fp_plen h (fp_at h buf)) < n"
      by auto
    from Suc.IH [OF Suc.prems(1,2) this] n(3) show False by blast
  qed
qed

lemma hl_frames_length: "length (hl_frames evs) = log_frames evs"
  by (simp add: hl_frames_def log_frames_def)

lemma new_events_app: "out w' = out w @ evs \<Longrightarrow> new_events w w' = evs"
  by (simp add: new_events_def)

lemma dispatches_free: "\<forall>e \<in> set P. \<not> is_HL e \<Longrightarrow> dispatches (P @ R) = dispatches R"
proof (induction P)
  case Nil
  then show ?case by simp
next
  case (Cons e P)
  then have "dispatches ((e # P) @ R) = dispatches (P @ R)"
    by (cases "P @ R") simp_all
  with Cons show ?case by simp
qed

lemma log_frames_free: "\<forall>e \<in> set P. \<not> is_HL e \<Longrightarrow> log_frames (P @ R) = log_frames R"
  by (simp add: log_frames_def filter_empty_conv [THEN iffD2])

lemma some_collapse:
  "x \<noteq> None \<Longrightarrow> \<not> isl (fst (the x)) \<Longrightarrow> x = Some (Inr (projr (fst (the x))), snd (the x))"
  by (cases x) (auto simp add: run_collapse [symmetric])

lemma frontline_tail:
  assumes v: "frag_valid h s (fp_at h buf)"
    and run: "process_frontline (Suc n) h s w buf len = Some (Inr s', w')"
  shows "0 \<le> len - fp_hdrlen (fp_at h buf) - fp_plen h (fp_at h buf) \<and>
     (\<exists>s2 w2. frontline_body h s w buf = (Inr s2, w2) \<and>
        (if 0 < len - fp_hdrlen (fp_at h buf) - fp_plen h (fp_at h buf)
         then process_frontline n h s2 w2
                (drop (nat (fp_hdrlen (fp_at h buf)) + nat (fp_plen h (fp_at h buf))) buf)
                (len - fp_hdrlen (fp_at h buf) - fp_plen h (fp_at h buf)) = Some (Inr s', w')
         else s' = s2 \<and> w' = w2)) \<and>
     (process_frontline (Suc 0) h s w buf len = None
        \<longleftrightarrow> 0 < len - fp_hdrlen (fp_at h buf) - fp_plen h (fp_at h buf))"
proof -
  let ?fp = "fp_at h buf"
  let ?hlen = "fp_hdrlen ?fp" and ?plen = "fp_plen h ?fp"
  obtain x w2 where pay: "frontline_body h s w buf = (x, w2)"
    by (cases "frontline_body h s w buf") auto
  from v have v': "\<not> (?hlen \<noteq> HLEN_BC2 h \<and> ?hlen \<noteq> HLEN_BC4 h)" "fp_type h ?fp \<notin> set (s_ignore s)"
    "\<not> (s_ignore_zero s \<and> ?plen = 0)"
    by (auto simp add: frag_valid_def)
  from run v' have a: "0 \<le> len - ?hlen" "?plen \<le> len - ?hlen"
    by (auto simp add: Let_def split: if_splits)
  from run v' a pay obtain s2 where x: "x = Inr s2"
    by (cases x) (auto simp add: Let_def frontline_body_def)
  from run v' a pay x have rest: "0 \<le> len - ?hlen - ?plen"
    "if len - ?hlen - ?plen \<noteq> 0
     then process_frontline n h s2 w2 (drop (nat ?hlen + nat ?plen) buf) (len - ?hlen - ?plen) = Some (Inr s', w')
     else s' = s2 \<and> w' = w2"
    by (auto simp add: Let_def frontline_body_def split: if_splits)
  have one: "process_frontline (Suc 0) h s w buf len = None \<longleftrightarrow> len - ?hlen - ?plen \<noteq> 0"
    using v' a pay x rest(1) by (auto simp add: Let_def frontline_body_def)
  have pos: "(0 < len - ?hlen - ?plen) = (len - ?hlen - ?plen \<noteq> 0)"
    using rest(1) by auto
  from rest one pay x show ?thesis
    by (simp only: pos) blast
qed

lemma frontline_misfit:
  assumes v: "frag_valid h s (fp_at h buf)"
    and neg: "len - fp_hdrlen (fp_at h buf) - fp_plen h (fp_at h buf) < 0"
  shows "\<exists>w1. process_frontline (Suc n) h s w buf len
      = Some (Inl (Assert_failed (if len - fp_hdrlen (fp_at h buf) < 0 then ''len >= 0'' else ''len >= plen'')), w1)"
proof -
  let ?fp = "fp_at h buf"
  let ?hlen = "fp_hdrlen ?fp" and ?plen = "fp_plen h ?fp"
  from v have v': "\<not> (?hlen \<noteq> HLEN_BC2 h \<and> ?hlen \<noteq> HLEN_BC4 h)" "fp_type h ?fp \<notin> set (s_ignore s)"
    "\<not> (s_ignore_zero s \<and> ?plen = 0)"
    by (auto simp add: frag_valid_def)
  show ?thesis
  proof (cases "len - ?hlen < 0")
    case True
    with v' show ?thesis by (simp add: Let_def)
  next
    case False
    with neg have "\<not> ?plen \<le> len - ?hlen" by simp
    with False v' show ?thesis by (simp add: Let_def)
  qed
qed

section \<open>The receive path: lemmas\<close>

lemma sniff_loop_continue:
  "process n h (read_packet s pkt) w (s_buf (read_packet s pkt)) (s_len (read_packet s pkt)) = Some (Inr s', w') \<Longrightarrow>
   sniff_loop n h s w (Some pkt # rs) = sniff_loop n h s' w' rs"
  by (simp add: Let_def)

lemma sniff_loop_stop:
  "process n h (read_packet s pkt) w (s_buf (read_packet s pkt)) (s_len (read_packet s pkt)) = Some (Inl e, w') \<Longrightarrow>
   sniff_loop n h s w (Some pkt # rs) = Some (Inl e, w')"
  by (simp add: Let_def)

lemma process_unknown_type:
  "uint b \<noteq> HCI_ACLDATA_PKT \<Longrightarrow>
   process n h s w (b # rest) len = Some (Inr s, printf w (''Unknown type: %d'' @ NL) [uint b])"
  by (simp add: process_def)

lemma dlen_mismatch:
  fixes d :: u16
  assumes "0 \<le> len" "len < 2 ^ 63" "uint d \<noteq> len - sizeof_hci_acl_hdr - 1"
  shows "uint d \<noteq> (len - sizeof_hci_acl_hdr - 1) mod 2 ^ 64"
proof (cases "5 \<le> len")
  case True
  with assms have "(len - sizeof_hci_acl_hdr - 1) mod 2 ^ 64 = len - sizeof_hci_acl_hdr - 1"
    by (simp add: sizeof_hci_acl_hdr_def)
  with assms(3) show ?thesis by simp
next
  case False
  have "(len - 5) mod 2 ^ 64 = (len - 5 + 2 ^ 64) mod 2 ^ 64"
    by (simp only: mod_add_self2)
  also have "\<dots> = len - 5 + 2 ^ 64"
    using False assms(1) by (intro mod_pos_pos_trivial) simp_all
  finally have "(len - sizeof_hci_acl_hdr - 1) mod 2 ^ 64 = len - 5 + 2 ^ 64"
    by (simp add: sizeof_hci_acl_hdr_def)
  moreover have "uint d < 2 ^ 16" using uint_lt2p [of d] by simp
  ultimately show ?thesis using assms(1) by simp
qed

lemma process_bad_dlen:
  assumes "uint b = HCI_ACLDATA_PKT" "acl_at rest = Some acl" "0 \<le> len" "len < 2 ^ 63"
    "uint (acl_dlen acl) \<noteq> len - sizeof_hci_acl_hdr - 1"
  shows "process n h s w (b # rest) len
     = Some (Inl (Assert_failed ''acl->dlen == (len - sizeof(*acl) - 1)''), w)"
  using assms dlen_mismatch [OF assms(3,4,5)] by (simp add: process_def)

lemma process_bad_hlen:
  assumes "uint b = HCI_ACLDATA_PKT" "acl_at rest = Some acl"
    "uint (acl_dlen acl) = len - sizeof_hci_acl_hdr - 1"
    "fp_hdrlen (fp_at h (drop 4 rest)) \<noteq> HLEN_BC2 h" "fp_hdrlen (fp_at h (drop 4 rest)) \<noteq> HLEN_BC4 h"
  shows "process (Suc n) h s w (b # rest) len
     = Some (Inl Aborted, printf w (''Unknown header len %d'' @ NL) [fp_hdrlen (fp_at h (drop 4 rest))])"
proof -
  have "0 \<le> uint (acl_dlen acl)" "uint (acl_dlen acl) < 2 ^ 16"
    using uint_lt2p [of "acl_dlen acl"] by simp_all
  with assms(3) have "(len - sizeof_hci_acl_hdr - 1) mod 2 ^ 64 = uint (acl_dlen acl)"
    by simp
  with assms show ?thesis by (simp add: process_def Let_def)
qed

section \<open>The timer command: lemmas\<close>

lemma timer_request_bytes:
  assumes "DP_DATA_SIZE h \<le> 252"
  shows "take (nat (rq_clen (timer_request h))) (rq_cparam (timer_request h))
     = word_of_int (FRAG_FIRST h OR FRAG_LAST h OR CHAN_DEBUG h) # word_of_int (CMD_TIMER h)
       # replicate (DP_DATA_SIZE h) 0"
proof -
  have "nat (2 + int (DP_DATA_SIZE h)) = Suc (Suc (DP_DATA_SIZE h))" by simp
  then show ?thesis
    by (simp add: timer_request_def debug_request_def dbg_bytes_def Let_def)
qed

lemma timer_request_fields:
  "rq_ogf (timer_request h) = OGF_VENDOR_CMD \<and> rq_ocf (timer_request h) = 0 \<and>
   rq_event (timer_request h) = EVT_VENDOR \<and> rq_clen (timer_request h) = 2 + int (DP_DATA_SIZE h) \<and>
   rq_rlen (timer_request h) = 254 \<and> length (rq_cparam (timer_request h)) = max 254 (2 + DP_DATA_SIZE h)"
  by (simp add: timer_request_def debug_request_def dbg_bytes_def Let_def)

lemma reply_buffer_nth:
  assumes "i < length reply" "i < 254"
  shows "(take 254 reply @ drop (length (take 254 reply)) (replicate 254 (0 :: u8))) ! i = reply ! i"
  using assms by (simp add: nth_append)

lemma get_timer_run:
  assumes "DP_DATA_SIZE h \<le> 252" "0 \<le> hci_devid lib dev" "0 \<le> hci_open_dev lib (hci_devid lib dev)"
    "hci_send_req lib (hci_open_dev lib (hci_devid lib dev)) (timer_request h) 2000 = Some reply"
    "6 \<le> length reply"
  shows "basesniff_get_timer h lib (Some (st, dev))
     = Inr (Some (le32_at reply 2, st\<lparr>s_fd := hci_open_dev lib (hci_devid lib dev)\<rparr>))"
proof -
  have n: "(take 254 reply @ drop (length (take 254 reply)) (replicate 254 (0 :: u8))) ! 5 = reply ! 5"
    "(take 254 reply @ drop (length (take 254 reply)) (replicate 254 (0 :: u8))) ! 4 = reply ! 4"
    "(take 254 reply @ drop (length (take 254 reply)) (replicate 254 (0 :: u8))) ! 3 = reply ! 3"
    "(take 254 reply @ drop (length (take 254 reply)) (replicate 254 (0 :: u8))) ! 2 = reply ! 2"
    using assms(5) by (simp_all only: reply_buffer_nth)
  have g: "get_dev_fd lib dev = Inr (hci_open_dev lib (hci_devid lib dev))"
    using assms(2,3) by (simp add: get_dev_fd_def Let_def)
  have s: "send_debug h lib (st\<lparr>s_fd := hci_open_dev lib (hci_devid lib dev)\<rparr>)
       \<lparr>dp_type = word_of_int (CMD_TIMER h), dp_data = replicate (DP_DATA_SIZE h) 0\<rparr>
       (replicate 254 0) 254
     = Inr (take 254 reply @ drop (length (take 254 reply)) (replicate 254 0))"
    using assms(1,4) by (simp add: send_debug_def dbg_bytes_def timer_request_def Let_def)
  show ?thesis
    by (simp only: basesniff_get_timer_def Let_def option.case prod.case g s sum.case n le32_at_def)
      simp
qed

lemma le32_example:
  assumes "take 6 reply = [0x00, 0x00, 0x78, 0x56, 0x34, 0x12 :: u8]"
  shows "6 \<le> length reply" "le32_at reply 2 = 0x12345678"
proof -
  have l: "length (take 6 reply) = 6" by (simp add: assms)
  then show "6 \<le> length reply" by simp
  have "reply ! 2 = take 6 reply ! 2" "reply ! 3 = take 6 reply ! 3"
    "reply ! 4 = take 6 reply ! 4" "reply ! 5 = take 6 reply ! 5"
    by simp_all
  then have "reply ! 2 = 0x78" "reply ! 3 = 0x56" "reply ! 4 = 0x34" "reply ! 5 = 0x12"
    by (simp_all add: assms)
  moreover have "sint (word_rcat [0x12, 0x34, 0x56, 0x78 :: u8] :: u32) = 0x12345678"
    by code_simp
  ultimately show "le32_at reply 2 = 0x12345678"
    by (simp add: le32_at_def)
qed

section \<open>The pairing observer: the claims\<close>

text \<open>
  C1: along every sequence of inputs fed to the pairing observer, a step prints exactly
  when the pairing mask is \<open>0xFF\<close> at the test of \<^verbatim>\<open>do_pin\<close>; it then prints the
  transcript line (which begins with \<^verbatim>\<open>btpincrack Go\<close>) and leaves the mask at 1, and
  a step that prints nothing leaves the mask as the test saw it. So when a run has printed
  at all, nothing was printed up to an input at which the mask was \<open>0xFF\<close>. From the
  armed state, fewer than seven inputs print nothing; and when seven inputs have printed a
  line, the mask is 1 again and feeding the same seven inputs once more prints the same
  line a second time.
\<close>

theorem pairing_line_only_when_complete:
  assumes "observe_all h s w xs = (Inr s1, w1)"
  shows "(\<forall>x r w2. observe h s1 w1 x = (r, w2) \<longrightarrow>
            (w2 \<noteq> w1 \<longleftrightarrow> test_mask h s1 x = Some 0xFF) \<and>
            (w2 \<noteq> w1 \<longrightarrow> (\<exists>s2. r = Inr s2 \<and> s_pin s2 = 1 \<and> w2 = prints w1 (pin_line s2))) \<and>
            (w2 = w1 \<longrightarrow> (\<forall>s2. r = Inr s2 \<longrightarrow>
               s_pin s2 = (case test_mask h s1 x of Some m \<Rightarrow> m | None \<Rightarrow> s_pin s1))))
       \<and> (w1 \<noteq> w \<longrightarrow>
            (\<exists>ys x zs sa. xs = ys @ x # zs \<and> observe_all h s w ys = (Inr sa, w) \<and>
               test_mask h sa x = Some 0xFF))
       \<and> (s_pin s = 1 \<and> length xs < 7 \<longrightarrow> w1 = w)
       \<and> (s_pin s = 1 \<and> length xs = 7 \<and> w1 \<noteq> w \<longrightarrow>
            s_pin s1 = 1 \<and> w1 = prints w (pin_line s1) \<and>
            (\<exists>s2. observe_all h s1 w1 xs = (Inr s2, prints w1 (pin_line s1)) \<and> s_pin s2 = 1))"
proof (intro conjI allI impI)
  fix x r w2
  assume ob: "observe h s1 w1 x = (r, w2)"
  note t = observe_test [OF ob]
  from t show "(w2 \<noteq> w1) = (test_mask h s1 x = Some 0xFF)" by (rule conjunct1)
  from t have "w2 \<noteq> w1 \<longrightarrow> (\<exists>s2. r = Inr s2 \<and> s_pin s2 = 1 \<and> w2 = prints w1 (pin_line s2))"
    by (rule conjunct1 [OF conjunct2])
  then show "w2 \<noteq> w1 \<Longrightarrow> \<exists>s2. r = Inr s2 \<and> s_pin s2 = 1 \<and> w2 = prints w1 (pin_line s2)"
    by (rule mp)
  fix s2
  from t have "w2 = w1 \<longrightarrow> (\<forall>s2. r = Inr s2 \<longrightarrow>
      s_pin s2 = (case test_mask h s1 x of Some m \<Rightarrow> m | None \<Rightarrow> s_pin s1))"
    by (rule conjunct2 [OF conjunct2])
  then show "w2 = w1 \<Longrightarrow> r = Inr s2 \<Longrightarrow>
      s_pin s2 = (case test_mask h s1 x of Some m \<Rightarrow> m | None \<Rightarrow> s_pin s1)"
    by blast
next
  assume "w1 \<noteq> w"
  with assms show "\<exists>ys x zs sa. xs = ys @ x # zs \<and> observe_all h s w ys = (Inr sa, w) \<and>
      test_mask h sa x = Some 0xFF"
    by (rule first_emission)
next
  assume a: "s_pin s = 1 \<and> length xs < 7"
  then have "got_count (s_pin s) + length xs < 7" by (simp add: got_count_simps)
  from observe_all_count [OF this assms] show "w1 = w" by simp
next
  assume a: "s_pin s = 1 \<and> length xs = 7 \<and> w1 \<noteq> w"
  then have b: "s_pin s = 1" "length xs = 7" "w1 \<noteq> w" by simp_all
  from seven_inputs_rerun [OF b(1) b(2) assms b(3)]
  show "s_pin s1 = 1" "w1 = prints w (pin_line s1)"
    "\<exists>s2. observe_all h s1 w1 xs = (Inr s2, prints w1 (pin_line s1)) \<and> s_pin s2 = 1"
    by blast+
qed


theorem pairing_line_only_when_complete_witness:
  "s_pin st0 = 1 \<and> length xs5 = 7 \<and>
   (\<exists>s1 w1 s2. observe_all hdr0 st0 w0 xs5 = (Inr s1, w1) \<and> w1 = prints w0 (pin_line s1) \<and>
      observe_all hdr0 s1 w1 xs5 = (Inr s2, prints w1 (pin_line s1))) \<and>
   (\<exists>ys x zs sa. xs5 = ys @ x # zs \<and> observe_all hdr0 st0 w0 ys = (Inr sa, w0) \<and>
      test_mask hdr0 sa x = Some 0xFF) \<and>
   (\<exists>s6 w6. observe_all hdr0 st0 w0 (take 6 xs5) = (Inr s6, w6) \<and>
      test_mask hdr0 s6 (xs5 ! 5) = Some 0x7F \<and> snd (observe hdr0 s6 w6 (xs5 ! 5)) = w6)"
proof -
  let ?r = "observe_all hdr0 st0 w0 xs5"
  let ?q = "observe_all hdr0 st0 w0 (take 6 xs5)"
  let ?s6 = "projr (fst ?q)"
  let ?o = "observe hdr0 ?s6 (snd ?q) (xs5 ! 5)"
  have ok: "\<not> isl (fst ?r)" by code_simp
  have em: "out (snd ?r) \<noteq> out w0" by code_simp
  have a: "s_pin st0 = 1" "length xs5 = 7" by code_simp+
  from run_collapse [OF ok] have run: "?r = (Inr (projr (fst ?r)), snd ?r)" .
  from em have ne: "snd ?r \<noteq> w0" by auto
  note th = pairing_line_only_when_complete [OF run]
  from th ne have first: "\<exists>ys x zs sa. xs5 = ys @ x # zs \<and> observe_all hdr0 st0 w0 ys = (Inr sa, w0) \<and>
      test_mask hdr0 sa x = Some 0xFF"
    by blast
  from th a ne have "snd ?r = prints w0 (pin_line (projr (fst ?r))) \<and>
      (\<exists>s2. observe_all hdr0 (projr (fst ?r)) (snd ?r) xs5
         = (Inr s2, prints (snd ?r) (pin_line (projr (fst ?r)))))"
    by blast
  with run have again: "\<exists>s1 w1 s2. observe_all hdr0 st0 w0 xs5 = (Inr s1, w1) \<and> w1 = prints w0 (pin_line s1) \<and>
      observe_all hdr0 s1 w1 xs5 = (Inr s2, prints w1 (pin_line s1))"
    by metis
  have ok6: "\<not> isl (fst ?q)" by code_simp
  from run_collapse [OF ok6] have run6: "?q = (Inr ?s6, snd ?q)" .
  have tm: "test_mask hdr0 ?s6 (xs5 ! 5) = Some 0x7F" by code_simp
  have o: "?o = (fst ?o, snd ?o)" by simp
  from pairing_line_only_when_complete [OF run6] o
  have "(snd ?o \<noteq> snd ?q) = (test_mask hdr0 ?s6 (xs5 ! 5) = Some 0xFF)" by blast
  with tm have "snd ?o = snd ?q" by simp
  with run6 tm have six: "\<exists>s6 w6. observe_all hdr0 st0 w0 (take 6 xs5) = (Inr s6, w6) \<and>
      test_mask hdr0 s6 (xs5 ! 5) = Some 0x7F \<and> snd (observe hdr0 s6 w6 (xs5 ! 5)) = w6"
    by metis
  from a again first six show ?thesis by blast
qed

text \<open>
  C5 as stated fails: the slots are indexed by who started the pairing, not by the role.
  In scenario S5 the initiator's combination key (0x22) is in slot 1 and the responder's
  (0x33) in slot 2; with every role flag swapped, slot 1 still holds 0x22.
\<close>

theorem role_swap_counterexample:
  "slot_after hdr0 st0 w0 xs5 2 = Some (replicate 16 0x33) \<and>
   slot_after hdr0 st0 w0 (flip_roles xs5) 1 = Some (replicate 16 0x22) \<and>
   slot_after hdr0 st0 w0 (flip_roles xs5) 1 \<noteq> slot_after hdr0 st0 w0 xs5 2"
  by code_simp

text \<open>
  C5, amended: from the armed state, swapping the role flag of every input swaps the order
  \<^verbatim>\<open><master> <slave>\<close> / \<^verbatim>\<open><slave> <master>\<close> in every line printed and the recorded
  \<^verbatim>\<open>s_pin_master\<close>, and leaves the mask and all seven slots as they are.
\<close>

theorem role_swap_keeps_slots:
  assumes "s_pin s = 1" and "observe_all h s w xs = (Inr s1, w1)"
  shows "\<exists>s2 evs. w1 = prints w evs \<and>
     observe_all h s w (flip_roles xs) = (Inr s2, prints w (map swap_ab evs)) \<and>
     s_pin s2 = s_pin s1 \<and> s_pin_data s2 = s_pin_data s1 \<and>
     (bit (s_pin s1) 1 \<longrightarrow> s_pin_master s2 = (\<not> s_pin_master s1))"
proof -
  from assms(1) have "flip_rel s s"
    by (simp add: flip_rel_def armed_inv_def)
  from observe_all_flip [OF this assms(2), of w] show ?thesis
    by (auto simp add: flip_rel_def)
qed

theorem role_swap_keeps_slots_witness:
  "\<exists>s1 w1 s2 evs. observe_all hdr0 st0 w0 xs5 = (Inr s1, w1) \<and> w1 = prints w0 evs \<and>
     observe_all hdr0 st0 w0 (flip_roles xs5) = (Inr s2, prints w0 (map swap_ab evs)) \<and>
     s_pin_data s2 = s_pin_data s1"
proof -
  let ?r = "observe_all hdr0 st0 w0 xs5"
  have ok: "\<not> isl (fst ?r)" by code_simp
  have a: "s_pin st0 = 1" by code_simp
  from run_collapse [OF ok] have run: "?r = (Inr (projr (fst ?r)), snd ?r)" .
  from role_swap_keeps_slots [OF a run] run show ?thesis
    by metis
qed

text \<open>
  C3 as stated fails: slot 5 holds the SRES of the initiator and slot 6 that of the
  responder. In scenario S5 the master sends IN_RAND, the slave sends the SRES 0x66 and the
  master the SRES 0x77; slot 5 ends as 0x77 and slot 6 as 0x66.
\<close>

theorem transcript_sres_slots_counterexample:
  "xs5 ! 0 = (True, LMP_IN_RAND hdr0, replicate 16 0x11) \<and>
   xs5 ! 5 = (False, LMP_SRES hdr0, replicate 4 0x66) \<and>
   xs5 ! 6 = (True, LMP_SRES hdr0, replicate 4 0x77) \<and>
   slot_after hdr0 st0 w0 xs5 5 = Some (replicate 4 0x77) \<and>
   slot_after hdr0 st0 w0 xs5 6 = Some (replicate 4 0x66)"
  by code_simp

text \<open>
  C3, amended: from the armed state and with bodies of at most 16 bytes, whenever a step
  prints a transcript line, the side recorded in \<^verbatim>\<open>s_pin_master\<close> sent an IN_RAND, slot
  5 holds the body of an SRES sent by that side (the initiator), and slot 6 holds the body
  of an SRES sent by the other side (the responder).
\<close>

theorem transcript_sres_slots:
  assumes "s_pin s = 1" and "short_bodies (xs @ [x])"
    and "observe_all h s w xs = (Inr s1, w1)" and "observe h s1 w1 x = (Inr s2, w2)"
    and "w2 \<noteq> w1"
  shows "\<exists>t b0 b5 b6. w2 = prints w1 (pin_line t) \<and> s_pin t = 0xFF \<and>
     (s_pin_master t, LMP_IN_RAND h, b0) \<in> set (xs @ [x]) \<and>
     (s_pin_master t, LMP_SRES h, b5) \<in> set (xs @ [x]) \<and> slot_holds (s_pin_data t) 5 b5 \<and>
     (\<not> s_pin_master t, LMP_SRES h, b6) \<in> set (xs @ [x]) \<and> slot_holds (s_pin_data t) 6 b6"
proof -
  from assms(2) have sb: "short_bodies ([] @ xs)" by (simp add: short_bodies_def)
  from observe_all_sres_inv [OF sres_inv_armed [OF assms(1)] sb assms(3)]
  have "sres_inv h xs s1" by simp
  from observe_sres_inv [OF this assms(2) assms(4)] assms(5) obtain t where
    t: "sres_inv h (xs @ [x]) t" "s_pin t = 0xFF" "w2 = prints w1 (pin_line t)" by blast
  from t(2) have "bit (s_pin t) 1" "bit (s_pin t) 5" "bit (s_pin t) 7" by simp_all
  with t(1) obtain b0 b5 b6 where
    "(s_pin_master t, LMP_IN_RAND h, b0) \<in> set (xs @ [x])"
    "(s_pin_master t, LMP_SRES h, b5) \<in> set (xs @ [x])" "slot_holds (s_pin_data t) 5 b5"
    "(\<not> s_pin_master t, LMP_SRES h, b6) \<in> set (xs @ [x])" "slot_holds (s_pin_data t) 6 b6"
    unfolding sres_inv_def by blast
  with t(2,3) show ?thesis by blast
qed

theorem transcript_sres_slots_witness:
  "\<exists>t b0 b5 b6.
     snd (observe hdr0 (projr (fst (observe_all hdr0 st0 w0 (butlast xs5))))
            (snd (observe_all hdr0 st0 w0 (butlast xs5))) (last xs5))
       = prints (snd (observe_all hdr0 st0 w0 (butlast xs5))) (pin_line t) \<and>
     s_pin t = 0xFF \<and>
     (s_pin_master t, LMP_IN_RAND hdr0, b0) \<in> set xs5 \<and>
     (s_pin_master t, LMP_SRES hdr0, b5) \<in> set xs5 \<and> slot_holds (s_pin_data t) 5 b5 \<and>
     (\<not> s_pin_master t, LMP_SRES hdr0, b6) \<in> set xs5 \<and> slot_holds (s_pin_data t) 6 b6"
proof -
  let ?r = "observe_all hdr0 st0 w0 (butlast xs5)"
  let ?q = "observe hdr0 (projr (fst ?r)) (snd ?r) (last xs5)"
  have ok: "\<not> isl (fst ?r)" by code_simp
  have ok2: "\<not> isl (fst ?q)" by code_simp
  have ne: "out (snd ?q) \<noteq> out (snd ?r)" by code_simp
  have a: "s_pin st0 = 1" by code_simp
  have sb: "short_bodies (butlast xs5 @ [last xs5])" by code_simp
  have xs: "butlast xs5 @ [last xs5] = xs5" by code_simp
  from ne have ne': "snd ?q \<noteq> snd ?r" by auto
  show ?thesis
    by (rule transcript_sres_slots [OF a sb run_collapse [OF ok] run_collapse [OF ok2] ne', unfolded xs])
qed

lemma pin_emit_mask:
  "pin_emit t w = (Inr s', w') \<Longrightarrow>
   (s_pin t \<noteq> 0xFF \<and> s_pin s' = s_pin t \<and> w' = w) \<or> (s_pin t = 0xFF \<and> s_pin s' = 1 \<and> w' \<noteq> w)"
  by (auto simp add: pin_emit_def pin_line_not_nil dest!: prints_same split: if_splits)

lemma do_pin_mask:
  assumes "do_pin h s w op buf len = (Inr s', w')"
  shows "(s_pin s' = s_pin s \<and> w' = w) \<or>
     (\<exists>m. ((op = LMP_IN_RAND h \<and> m = 1 OR GOT_IN_RAND) \<or> (op \<noteq> LMP_IN_RAND h \<and> (\<exists>f. is_flag f \<and> m = s_pin s OR f)))
        \<and> ((m \<noteq> 0xFF \<and> s_pin s' = m \<and> w' = w) \<or> (m = 0xFF \<and> s_pin s' = 1 \<and> w' \<noteq> w)))"
proof (cases "op = LMP_IN_RAND h")
  case True
  with assms obtain d where
    e: "pin_emit (s\<lparr>s_pin := 1 OR GOT_IN_RAND, s_pin_master := s_master s, s_pin_data := d\<rparr>) w = (Inr s', w')"
    by (auto simp add: do_pin_alt split: option.splits)
  from pin_emit_mask [OF e] True show ?thesis by auto
next
  case False
  show ?thesis
  proof (cases "pin_accept h s op")
    case None
    with False assms show ?thesis by (simp add: do_pin_alt)
  next
    case (Some p)
    obtain i f where p: "p = (i, f)" by (cases p) auto
    from Some p False assms obtain d where
      e: "pin_emit (s\<lparr>s_pin_data := d, s_pin := s_pin s OR f\<rparr>) w = (Inr s', w')"
      by (auto simp add: do_pin_alt pin_store_def split: option.splits)
    from Some p have "is_flag f" by (auto dest: pin_accept_flag)
    with pin_emit_mask [OF e] False show ?thesis by auto
  qed
qed

lemma mask_facts:
  "bit ((1::int) OR GOT_IN_RAND) 0" "(1::int) OR GOT_IN_RAND \<noteq> 0xFF" "(1::int) OR GOT_IN_RAND \<noteq> 0"
  "bit (m::int) 0 \<Longrightarrow> bit (m OR f) 0" "is_flag f \<Longrightarrow> m OR f \<noteq> 0"
proof -
  show "bit ((1::int) OR GOT_IN_RAND) 0" by (simp add: in_rand_bits)
  show "(1::int) OR GOT_IN_RAND \<noteq> 0xFF" "(1::int) OR GOT_IN_RAND \<noteq> 0" by (simp_all add: GOT_vals)
  show "bit (m::int) 0 \<Longrightarrow> bit (m OR f) 0" by (simp add: bit_or_iff)
  show "is_flag f \<Longrightarrow> m OR f \<noteq> 0"
    by (auto simp add: is_flag_def GOT_vals or_eq_0_iff)
qed

lemma lmp_decode_unarmed:
  "s_pin s = 0 \<Longrightarrow>
   fst (lmp_decode h s w buf len) = Inr s \<or> isl (fst (lmp_decode h s w buf len))"
  by (auto simp add: lmp_decode_def Let_def andthen_def split: list.splits option.splits)

lemma process_lmp_unarmed:
  assumes "s_pin s = 0"
  shows "fst (process_lmp h s w buf len) = Inr s \<or> isl (fst (process_lmp h s w buf len))"
proof (cases "if s_dump s \<noteq> - 1 then dump_lmp s w buf len else (Inr (), w)")
  case (Pair x w1)
  then show ?thesis
    using lmp_decode_unarmed [OF assms, of h w1 buf len]
    by (cases x) (simp_all add: process_lmp_def andthen_def)
qed

lemma in_rand_mask:
  assumes "do_pin h s w (LMP_IN_RAND h) buf len = (Inr s', w')"
  shows "s_pin s' = (1 OR GOT_IN_RAND)"
proof -
  from assms obtain d where
    e: "pin_emit (s\<lparr>s_pin := 1 OR GOT_IN_RAND, s_pin_master := s_master s, s_pin_data := d\<rparr>) w = (Inr s', w')"
    by (auto simp add: do_pin_alt split: option.splits)
  from pin_emit_mask [OF e] mask_facts(2) show ?thesis by auto
qed

text \<open>
  C9: every transition of \<^verbatim>\<open>do_pin\<close> leaves the mask as it is, resets it to exactly 1
  (and only a transition that prints a line does so), sets it to \<open>1 | GOT_IN_RAND\<close> (which
  IN_RAND always does), or ORs one of the flags into it; so the armed bit 0 stays set and a
  nonzero mask stays nonzero. With a mask of 0, \<^verbatim>\<open>process_lmp\<close> does not call the observer:
  the session comes back unchanged and no transcript line is printed.
\<close>

theorem armed_bit_kept:
  "(do_pin h s w op buf len = (Inr s', w') \<longrightarrow>
      (s_pin s' = s_pin s \<or> s_pin s' = 1 \<or> s_pin s' = (1 OR GOT_IN_RAND)
         \<or> (\<exists>f. is_flag f \<and> s_pin s' = (s_pin s OR f))) \<and>
      (op = LMP_IN_RAND h \<longrightarrow> s_pin s' = (1 OR GOT_IN_RAND)) \<and>
      (w' \<noteq> w \<longrightarrow> s_pin s' = 1) \<and>
      (bit (s_pin s) 0 \<longrightarrow> bit (s_pin s') 0) \<and>
      (s_pin s \<noteq> 0 \<longrightarrow> s_pin s' \<noteq> 0)) \<and>
   (s_pin s = 0 \<longrightarrow>
      (fst (process_lmp h s w buf len) = Inr s \<or> isl (fst (process_lmp h s w buf len))) \<and>
      Printf ''btpincrack Go '' [] \<notin> set (drop (length (out w)) (out (snd (process_lmp h s w buf len)))))"
proof (intro conjI impI)
  assume run: "do_pin h s w op buf len = (Inr s', w')"
  note m = do_pin_mask [OF run]
  from m show "s_pin s' = s_pin s \<or> s_pin s' = 1 \<or> s_pin s' = (1 OR GOT_IN_RAND)
      \<or> (\<exists>f. is_flag f \<and> s_pin s' = (s_pin s OR f))"
    by blast
  from m show "s_pin s' = 1" if "w' \<noteq> w"
    using that by blast
  from m show "bit (s_pin s') 0" if "bit (s_pin s) 0"
    using that mask_facts(1) mask_facts(4) [OF that] by (metis bit_1_0)
  from m show "s_pin s' \<noteq> 0" if "s_pin s \<noteq> 0"
    using that mask_facts(3) mask_facts(5) by (metis zero_neq_one)
  show "s_pin s' = (1 OR GOT_IN_RAND)" if "op = LMP_IN_RAND h"
    using that run in_rand_mask by blast
next
  assume z: "s_pin s = 0"
  show "fst (process_lmp h s w buf len) = Inr s \<or> isl (fst (process_lmp h s w buf len))"
    using z by (rule process_lmp_unarmed)
  have "adds (\<lambda>f. f \<noteq> Some ''btpincrack Go '') w (snd (process_lmp h s w buf len))"
    by (rule process_lmp_adds) (use z in \<open>simp_all add: lmp_formats_def NL_def\<close>)
  then show "Printf ''btpincrack Go '' [] \<notin> set (drop (length (out w)) (out (snd (process_lmp h s w buf len))))"
    by (rule adds_drop) (simp add: fmt_of_def)
qed


theorem armed_bit_kept_witness:
  "bit (s_pin st0) 0 \<and> bit (s_pin (projr (fst (do_pin hdr0 st0 w0 8 (replicate 16 0x11) 16)))) 0 \<and>
   s_pin (projr (fst (do_pin hdr0 st0 w0 8 (replicate 16 0x11) 16))) = (1 OR GOT_IN_RAND)"
proof -
  let ?r = "do_pin hdr0 st0 w0 8 (replicate 16 0x11) 16"
  have ok: "\<not> isl (fst ?r)" by code_simp
  have b: "bit (s_pin st0) 0" by code_simp
  have op: "8 = LMP_IN_RAND hdr0" by code_simp
  from armed_bit_kept [where h = hdr0 and s = st0 and w = w0 and op = 8 and buf = "replicate 16 0x11"
      and len = 16 and s' = "projr (fst ?r)" and w' = "snd ?r"]
    run_collapse [OF ok] b op
  show ?thesis by (simp add: mask_facts(1))
qed

lemma do_pin_no_assert: "fst (do_pin h s w op buf len) \<noteq> Inl (Assert_failed txt)"
  by (auto simp add: do_pin_alt pin_store_def pin_emit_def split: option.splits prod.splits)

lemma lmp_decode_assert:
  assumes "2 \<le> length buf"
  shows "fst (lmp_decode h s w buf len) = Inl (Assert_failed ''len >= 0'') \<longleftrightarrow> \<not> lmp_len_ok h buf len"
proof -
  from assms obtain b c data where buf: "buf = b # c # data"
    by (cases buf; cases "tl buf") auto
  show ?thesis
    using do_pin_no_assert [of h s _ _ _ _ "''len >= 0''"]
    by (auto simp add: buf lmp_decode_def lmp_len_ok_def Let_def andthen_def split: option.splits)
qed


lemma dump_lmp_no_len_assert: "fst (dump_lmp s w buf len) \<noteq> Inl (Assert_failed ''len >= 0'')"
  by (auto simp add: dump_lmp_def Let_def andthen_def write_dump_def
      split: option.splits nat.splits prod.splits sum.splits)

lemma dump_lmp_unit: "fst (dump_lmp s w buf len) = Inr u \<longleftrightarrow> \<not> isl (fst (dump_lmp s w buf len))"
  by (cases "fst (dump_lmp s w buf len)") auto

text \<open>
  C10: given two bytes of memory at the pointer, the LMP decoder ends in the failed
  assertion \<^verbatim>\<open>len >= 0\<close> exactly when the length precondition is violated: \<open>len\<close> at
  least 1, and at least 2 when \<open>op1\<close> is in 124..127. The same holds for
  \<^verbatim>\<open>process_lmp\<close> once the dump record is written (or dumping is off). Under the
  precondition the body printed is what is left after one byte, or after two bytes in the
  extended range.
\<close>

theorem lmp_assertion_iff:
  assumes "2 \<le> length buf"
  shows "(fst (lmp_decode h s w buf len) = Inl (Assert_failed ''len >= 0'') \<longleftrightarrow> \<not> lmp_len_ok h buf len) \<and>
     (fst (process_lmp h s w buf len) = Inl (Assert_failed ''len >= 0'') \<longleftrightarrow>
        (s_dump s = - 1 \<or> fst (dump_lmp s w buf len) = Inr ()) \<and> \<not> lmp_len_ok h buf len) \<and>
     (lmp_len_ok h buf len \<and> nat len \<le> length buf \<and> s_pin s = 0 \<longrightarrow>
        lmp_decode h s w buf len =
          (let op1 = drop_bit (LMP_OP1_SHIFT h) (uint (buf ! 0));
               ext = (124 \<le> op1 \<and> op1 \<le> 127);
               k = (if ext then 2 else 1)
           in (Inr s, prints w
                 ([Printf ''LMP Tid %d Op1 %d'' [uint (buf ! 0) AND LMP_TID_MASK h, op1]]
                  @ (if ext then [Printf '' Op2 %d'' [uint (buf ! 1)]] else [])
                  @ [Printf '': '' []]
                  @ hexdump (take (nat len - k) (drop k buf))))))"
proof (intro conjI impI)
  show a: "fst (lmp_decode h s w buf len) = Inl (Assert_failed ''len >= 0'') \<longleftrightarrow> \<not> lmp_len_ok h buf len"
    using assms by (rule lmp_decode_assert)
  show "fst (process_lmp h s w buf len) = Inl (Assert_failed ''len >= 0'') \<longleftrightarrow>
        (s_dump s = - 1 \<or> fst (dump_lmp s w buf len) = Inr ()) \<and> \<not> lmp_len_ok h buf len"
  proof (cases "s_dump s = - 1")
    case True
    then show ?thesis using a by (simp add: process_lmp_def andthen_def)
  next
    case False
    obtain x w1 where d: "dump_lmp s w buf len = (x, w1)" by (cases "dump_lmp s w buf len") auto
    show ?thesis
    proof (cases x)
      case (Inl e)
      with d False dump_lmp_no_len_assert [of s w buf len] show ?thesis
        by (simp add: process_lmp_def andthen_def)
    next
      case (Inr u)
      with d False lmp_decode_assert [OF assms, of h s w1 len] show ?thesis
        by (simp add: process_lmp_def andthen_def)
    qed
  qed
next
  assume p: "lmp_len_ok h buf len \<and> nat len \<le> length buf \<and> s_pin s = 0"
  from assms obtain b c data where buf: "buf = b # c # data"
    by (cases buf; cases "tl buf") auto
  have "uint c \<noteq> - 1" using uint_nonnegative [of c] by linarith
  with p show "lmp_decode h s w buf len =
          (let op1 = drop_bit (LMP_OP1_SHIFT h) (uint (buf ! 0));
               ext = (124 \<le> op1 \<and> op1 \<le> 127);
               k = (if ext then 2 else 1)
           in (Inr s, prints w
                 ([Printf ''LMP Tid %d Op1 %d'' [uint (buf ! 0) AND LMP_TID_MASK h, op1]]
                  @ (if ext then [Printf '' Op2 %d'' [uint (buf ! 1)]] else [])
                  @ [Printf '': '' []]
                  @ hexdump (take (nat len - k) (drop k buf)))))"
    by (auto simp add: buf lmp_decode_def lmp_len_ok_def Let_def andthen_def bytes_at_def
        prints_def printf_def nat_diff_distrib split: option.splits)
qed


theorem lmp_assertion_iff_witness:
  "2 \<le> length [0xF8, 0x03, 0xAA, 0xBB :: u8] \<and>
   fst (lmp_decode hdr0 st0 w0 [0xF8, 0x03, 0xAA, 0xBB] 1) = Inl (Assert_failed ''len >= 0'') \<and>
   fst (lmp_decode hdr0 st0 w0 [0xF8, 0x03, 0xAA, 0xBB] 4) \<noteq> Inl (Assert_failed ''len >= 0'')"
proof -
  have m: "2 \<le> length [0xF8, 0x03, 0xAA, 0xBB :: u8]" by simp
  have a: "\<not> lmp_len_ok hdr0 [0xF8, 0x03, 0xAA, 0xBB] 1" by code_simp
  have b: "lmp_len_ok hdr0 [0xF8, 0x03, 0xAA, 0xBB] 4" by code_simp
  from lmp_assertion_iff [OF m, of hdr0 st0 w0 1] lmp_assertion_iff [OF m, of hdr0 st0 w0 4] a b m
  show ?thesis by blast
qed

lemma write_dump_ok:
  assumes "writes_ok w (Suc k)"
  shows "\<exists>w1. write_dump w fd x = (Inr (), w1) \<and> out w1 = out w @ [Write fd x] \<and> writes_ok w1 k"
  using assms by (auto simp add: writes_ok_def write_dump_def split: option.splits nat.splits)

lemma dump_lmp_ok:
  assumes "0 \<le> len" "len \<le> 17" "nat len \<le> length buf" "writes_ok w 4"
  shows "\<exists>w4. dump_lmp s w buf len = (Inr (), w4) \<and>
     out w4 = out w @
       [Write (s_dump s) (Dump_hdr \<lparr>dh_len = word_of_int (1 + sizeof_hci_event_hdr + 20), dh_in = 1,
                                    dh_ts_sec = 0, dh_ts_usec = 0\<rparr>),
        Write (s_dump s) (Dump_type (word_of_int HCI_EVENT_PKT)),
        Write (s_dump s) (Dump_evt \<lparr>evt_evt = word_of_int EVT_VENDOR, evt_plen = 20\<rparr>),
        Write (s_dump s) (Dump_bytes ([20, if s_master s then 0x10 else 0x0F] @ take (nat len) buf
                                      @ replicate (17 - nat len) 0 @ [0]))]"
proof -
  let ?fd = "s_dump s"
  let ?i1 = "Dump_hdr \<lparr>dh_len = word_of_int (1 + sizeof_hci_event_hdr + 20), dh_in = 1, dh_ts_sec = 0, dh_ts_usec = 0\<rparr>"
  let ?i2 = "Dump_type (word_of_int HCI_EVENT_PKT)"
  let ?i3 = "Dump_evt \<lparr>evt_evt = word_of_int EVT_VENDOR, evt_plen = 20\<rparr>"
  let ?i4 = "Dump_bytes ([20, if s_master s then 0x10 else 0x0F] @ take (nat len) buf @ replicate (17 - nat len) 0 @ [0])"
  from assms(4) have "writes_ok w (Suc 3)" by simp
  from write_dump_ok [OF this, of ?fd ?i1] obtain w1 where
    w1: "write_dump w ?fd ?i1 = (Inr (), w1)" "out w1 = out w @ [Write ?fd ?i1]" "writes_ok w1 3" by blast
  from w1(3) have "writes_ok w1 (Suc 2)" by (simp add: numeral_3_eq_3)
  from write_dump_ok [OF this, of ?fd ?i2] obtain w2 where
    w2: "write_dump w1 ?fd ?i2 = (Inr (), w2)" "out w2 = out w1 @ [Write ?fd ?i2]" "writes_ok w2 2" by blast
  from w2(3) have "writes_ok w2 (Suc 1)" by (simp add: numeral_2_eq_2)
  from write_dump_ok [OF this, of ?fd ?i3] obtain w3 where
    w3: "write_dump w2 ?fd ?i3 = (Inr (), w3)" "out w3 = out w2 @ [Write ?fd ?i3]" "writes_ok w3 1" by blast
  from w3(3) have "writes_ok w3 (Suc 0)" by simp
  from write_dump_ok [OF this, of ?fd ?i4] obtain w4 where
    w4: "write_dump w3 ?fd ?i4 = (Inr (), w4)" "out w4 = out w3 @ [Write ?fd ?i4]" by blast
  from assms(1-3) have b: "bytes_at buf len = Some (take (nat len) buf)" by (simp add: bytes_at_def)
  from assms(3) have l: "length (take (nat len) buf) = nat len" by simp
  have "dump_lmp s w buf len = (Inr (), w4)"
    using assms(2) w1(1) w2(1) w3(1) w4(1) b l by (simp add: dump_lmp_def Let_def andthen_def)
  with w1(2) w2(2) w3(2) w4(2) show ?thesis by simp
qed


text \<open>
  C6: with dump output enabled, a body of at most 17 bytes and four successful writes, the
  trace of \<^verbatim>\<open>process_lmp\<close> continues with exactly the four writes of the record: the dump
  header with \<open>len = 1 + sizeof(EvtHdr) + 20\<close>, \<open>in = 1\<close> and zero timestamps; the
  byte \<^verbatim>\<open>HCI_EVENT_PKT\<close> (0x04); the event header (\<^verbatim>\<open>EVT_VENDOR\<close> = 0xFF, 20); and the
  20 bytes: 20, the direction byte (0x10 for the master, 0x0F for the slave), the body
  padded with zeros to 17 bytes, and 0. Everything after them is printed by the decoder;
  nothing else is written.
\<close>

theorem lmp_dump_record:
  assumes "s_dump s \<noteq> - 1" and "0 \<le> len" and "len \<le> 17" and "nat len \<le> length buf"
    and "writes_ok w 4"
  shows "\<exists>evs. out (snd (process_lmp h s w buf len)) = out w @
       [Write (s_dump s) (Dump_hdr \<lparr>dh_len = word_of_int (1 + sizeof_hci_event_hdr + 20), dh_in = 1,
                                    dh_ts_sec = 0, dh_ts_usec = 0\<rparr>),
        Write (s_dump s) (Dump_type 0x04),
        Write (s_dump s) (Dump_evt \<lparr>evt_evt = 0xFF, evt_plen = 20\<rparr>),
        Write (s_dump s) (Dump_bytes ([20, if s_master s then 0x10 else 0x0F] @ take (nat len) buf
                                      @ replicate (17 - nat len) 0 @ [0]))] @ evs
     \<and> (\<forall>e \<in> set evs. \<exists>f a. e = Printf f a)"
proof -
  from dump_lmp_ok [OF assms(2-5), of s] obtain w4 where
    d: "dump_lmp s w buf len = (Inr (), w4)" and
    o: "out w4 = out w @
       [Write (s_dump s) (Dump_hdr \<lparr>dh_len = word_of_int (1 + sizeof_hci_event_hdr + 20), dh_in = 1,
                                    dh_ts_sec = 0, dh_ts_usec = 0\<rparr>),
        Write (s_dump s) (Dump_type (word_of_int HCI_EVENT_PKT)),
        Write (s_dump s) (Dump_evt \<lparr>evt_evt = word_of_int EVT_VENDOR, evt_plen = 20\<rparr>),
        Write (s_dump s) (Dump_bytes ([20, if s_master s then 0x10 else 0x0F] @ take (nat len) buf
                                      @ replicate (17 - nat len) 0 @ [0]))]"
    by blast
  have "adds (\<lambda>f. f \<noteq> None) w4 (snd (lmp_decode h s w4 buf len))"
    by (rule lmp_decode_adds) simp_all
  then obtain evs where e: "out (snd (lmp_decode h s w4 buf len)) = out w4 @ evs"
    "\<forall>e \<in> set evs. fmt_of e \<noteq> None"
    by (auto simp add: adds_def)
  have "\<exists>f a. e = Printf f a" if "fmt_of e \<noteq> None" for e
    using that by (cases e) (simp_all add: fmt_of_def)
  with e(2) have "\<forall>e \<in> set evs. \<exists>f a. e = Printf f a"
    by blast
  moreover from assms(1) d have "process_lmp h s w buf len = lmp_decode h s w4 buf len"
    by (simp add: process_lmp_def andthen_def)
  ultimately show ?thesis
    using e(1) o by (simp add: HCI_EVENT_PKT_def EVT_VENDOR_def)
qed

theorem lmp_dump_record_witness:
  "\<exists>evs. out (snd (process_lmp hdr0 (st0\<lparr>s_dump := 5, s_master := True\<rparr>) w0 [0x10, 0xAA, 0xBB] 3)) = out w0 @
       [Write 5 (Dump_hdr \<lparr>dh_len = 23, dh_in = 1, dh_ts_sec = 0, dh_ts_usec = 0\<rparr>),
        Write 5 (Dump_type 0x04),
        Write 5 (Dump_evt \<lparr>evt_evt = 0xFF, evt_plen = 20\<rparr>),
        Write 5 (Dump_bytes ([20, 0x10, 0x10, 0xAA, 0xBB] @ replicate 14 0 @ [0]))] @ evs
     \<and> (\<forall>e \<in> set evs. \<exists>f a. e = Printf f a)"
proof -
  have a: "s_dump (st0\<lparr>s_dump := 5, s_master := True\<rparr>) \<noteq> - 1" by simp
  have b: "(0::int) \<le> 3" "(3::int) \<le> 17" "nat 3 \<le> length [0x10, 0xAA, 0xBB :: u8]" by simp_all
  have c: "writes_ok w0 4" by code_simp
  from lmp_dump_record [OF a b c, of hdr0] show ?thesis
    by (simp add: sizeof_hci_event_hdr_def w0_def numeral_3_eq_3)
qed

section \<open>The frontline decoder: the claims\<close>

text \<open>
  C2 as stated fails: with the ignore-zero-length filter on, the fragment without payload
  is skipped before its summary line is printed, so the two fragments give one log frame,
  not two.
\<close>

theorem two_fragments_counterexample:
  "log_frames (frontline_trace 2 hdr0 (st0\<lparr>s_ignore_zero := True\<rparr>) w0 buf2 24) = 1 \<and>
   log_frames (frontline_trace 2 hdr0 (st0\<lparr>s_ignore_zero := True\<rparr>) w0 buf2 24) \<noteq> 2"
  by code_simp

text \<open>
  C2, amended: for two concatenated fragments with \<open>hlen = HLEN_BC4\<close>, type 0 and
  payload lengths 4 and 0, with type 0 not in the ignore list and a decoder that returns,
  the decoder prints two log frames when the ignore-zero-length filter is off and one when
  it is on; in both cases exactly one payload dispatch occurs.
\<close>

theorem two_fragments:
  assumes h4: "0 < HLEN_BC4 h"
    and f1: "fp_hdrlen (fp_at h buf) = HLEN_BC4 h" "fp_type h (fp_at h buf) = 0"
      "fp_plen h (fp_at h buf) = 4"
    and f2: "fp_hdrlen (fp_at h (drop (nat (HLEN_BC4 h) + 4) buf)) = HLEN_BC4 h"
      "fp_type h (fp_at h (drop (nat (HLEN_BC4 h) + 4) buf)) = 0"
      "fp_plen h (fp_at h (drop (nat (HLEN_BC4 h) + 4) buf)) = 0"
    and len: "len = 2 * HLEN_BC4 h + 4"
    and ign: "0 \<notin> set (s_ignore s)"
    and run: "process_frontline (Suc (Suc n)) h s w buf len = Some (Inr s', w')"
  shows "log_frames (new_events w w') = (if s_ignore_zero s then 1 else 2) \<and>
     dispatches (new_events w w') = 1"
proof -
  let ?fp = "fp_at h buf"
  let ?tl = "drop (nat (HLEN_BC4 h) + 4) buf"
  let ?fp2 = "fp_at h ?tl"
  let ?HL1 = "HL_line h (fp_session h s ?fp) ?fp"
  have v1: "frag_valid h s ?fp"
    using f1 ign by (simp add: frag_valid_def)
  from frontline_step [OF v1 run] f1 len h4 obtain s2 w2 P where
    st: "out w2 = out w @ ?HL1 # Printf '' '' [] # P" "\<forall>e \<in> set P. \<not> is_HL e"
      "s_ignore s2 = s_ignore s" "s_ignore_zero s2 = s_ignore_zero s"
      "process_frontline (Suc n) h s2 w2 ?tl (HLEN_BC4 h) = Some (Inr s', w')"
    by auto
  show ?thesis
  proof (cases "s_ignore_zero s")
    case True
    with st(3,4,5) f2 ign have "w' = w2"
      by (simp add: Let_def)
    with st(1) have ne: "new_events w w' = [?HL1] @ (Printf '' '' [] # P) @ []"
      by (simp add: new_events_def)
    have fr: "\<forall>e \<in> set (Printf '' '' [] # P). \<not> is_HL e"
      using st(2) by (simp add: not_HL_simps)
    have "log_frames (new_events w w') = 1"
      unfolding ne using log_frames_free [OF fr, of "[]"]
      by (simp add: log_frames_def is_HL_line)
    moreover have "dispatches (new_events w w') = 1"
      unfolding ne using dispatches_free [OF fr, of "[]"]
      by (simp add: is_HL_line)
    ultimately show ?thesis using True by simp
  next
    case False
    let ?HL2 = "HL_line h (fp_session h s2 ?fp2) ?fp2"
    have v2: "frag_valid h s2 ?fp2"
      using f2 ign False st(3,4) by (simp add: frag_valid_def)
    from frontline_step [OF v2 st(5)] f2 obtain s3 w3 where
      "out w3 = out w2 @ [?HL2, Printf NL []]" "w' = w3"
      by auto
    with st(1) have ne: "new_events w w' = [?HL1] @ (Printf '' '' [] # P) @ [?HL2, Printf NL []]"
      by (simp add: new_events_def)
    have fr: "\<forall>e \<in> set (Printf '' '' [] # P). \<not> is_HL e"
      using st(2) by (simp add: not_HL_simps)
    have "log_frames (new_events w w') = 2"
      unfolding ne using log_frames_free [OF fr, of "[?HL2, Printf NL []]"]
      by (simp add: log_frames_def is_HL_line not_HL_simps)
    moreover have "dispatches (new_events w w') = 1"
      unfolding ne using dispatches_free [OF fr, of "[?HL2, Printf NL []]"]
      by (simp add: is_HL_line NL_def)
    ultimately show ?thesis using False by simp
  qed
qed

theorem two_fragments_witness:
  "log_frames (new_events w0 (snd (the (process_frontline 2 hdr0 st0 w0 buf2 24)))) = 2 \<and>
   dispatches (new_events w0 (snd (the (process_frontline 2 hdr0 st0 w0 buf2 24)))) = 1"
proof -
  let ?x = "process_frontline (Suc (Suc 0)) hdr0 st0 w0 buf2 24"
  have x: "?x \<noteq> None" "\<not> isl (fst (the ?x))" by code_simp+
  have h4: "0 < HLEN_BC4 hdr0" by code_simp
  have f1: "fp_hdrlen (fp_at hdr0 buf2) = HLEN_BC4 hdr0" "fp_type hdr0 (fp_at hdr0 buf2) = 0"
    "fp_plen hdr0 (fp_at hdr0 buf2) = 4"
    by code_simp+
  have f2: "fp_hdrlen (fp_at hdr0 (drop (nat (HLEN_BC4 hdr0) + 4) buf2)) = HLEN_BC4 hdr0"
    "fp_type hdr0 (fp_at hdr0 (drop (nat (HLEN_BC4 hdr0) + 4) buf2)) = 0"
    "fp_plen hdr0 (fp_at hdr0 (drop (nat (HLEN_BC4 hdr0) + 4) buf2)) = 0"
    by code_simp+
  have len: "(24::int) = 2 * HLEN_BC4 hdr0 + 4" by code_simp
  have ign: "0 \<notin> set (s_ignore st0)" by code_simp
  have z: "\<not> s_ignore_zero st0" by code_simp
  have two: "Suc (Suc 0) = 2" by simp
  from two_fragments [OF h4 f1 f2 len ign some_collapse [OF x]] z show ?thesis
    unfolding two by simp
qed

text \<open>
  C4 as stated fails: a single fragment with a known header length of 10 that no filter
  removes, declaring 4 bytes of payload in a stream of 12 bytes, is a decomposition that
  accounts for 14 bytes, not 12, and the decoder ends in the failed assertion
  \<^verbatim>\<open>len >= plen\<close>.
\<close>

theorem frontline_covers_buffer_counterexample:
  "list_all (frag_valid hdr0 st0) (fragments 2 hdr0 buf_short 12) \<and>
   covered 2 hdr0 buf_short 12 = 14 \<and> covered 2 hdr0 buf_short 12 \<noteq> 12 \<and>
   frontline_error 2 hdr0 st0 w0 buf_short 12 = Some (Assert_failed ''len >= plen'')"
  by code_simp

text \<open>
  C4, amended: the claim holds for the streams that the decoder accepts. With positive
  header lengths and more fuel than bytes the decoder returns. Whenever it returns without
  a fatal error on a stream all of whose fragments are valid (known header length, not
  removed by a filter), the lengths \<open>hlen + plen\<close> of the fragments add up to the input
  length, and the decoder prints exactly one header summary line per fragment of the
  decomposition, in order, with that fragment's \<open>hlen\<close> and \<open>plen\<close>. After a valid
  first fragment is decoded, \<open>len - hlen - plen\<close> is not negative; the decoder goes on
  with the call on the tail exactly when it is positive (with fuel for a single call it
  does not return exactly then), and otherwise returns what the decoding of the fragment
  left. A valid first fragment whose header and declared payload do not fit into the
  stream ends the run in a failed assertion.
\<close>

theorem frontline_covers_buffer:
  "(0 < HLEN_BC2 h \<and> 0 < HLEN_BC4 h \<and> nat len < n \<longrightarrow> process_frontline n h s w buf len \<noteq> None) \<and>
   (process_frontline n h s w buf len = Some (Inr s', w') \<and>
    (\<forall>fp \<in> set (fragments n h buf len). frag_valid h s fp) \<longrightarrow>
      covered n h buf len = len \<and>
      hl_frames (new_events w w') = map (\<lambda>fp. (fp_hdrlen fp, fp_plen h fp)) (fragments n h buf len) \<and>
      log_frames (new_events w w') = length (fragments n h buf len)) \<and>
   (frag_valid h s (fp_at h buf) \<and> process_frontline (Suc n) h s w buf len = Some (Inr s', w') \<longrightarrow>
      0 \<le> len - fp_hdrlen (fp_at h buf) - fp_plen h (fp_at h buf) \<and>
      (\<exists>s2 w2. frontline_body h s w buf = (Inr s2, w2) \<and>
         (if 0 < len - fp_hdrlen (fp_at h buf) - fp_plen h (fp_at h buf)
          then process_frontline n h s2 w2
                 (drop (nat (fp_hdrlen (fp_at h buf)) + nat (fp_plen h (fp_at h buf))) buf)
                 (len - fp_hdrlen (fp_at h buf) - fp_plen h (fp_at h buf)) = Some (Inr s', w')
          else s' = s2 \<and> w' = w2)) \<and>
      (process_frontline (Suc 0) h s w buf len = None
         \<longleftrightarrow> 0 < len - fp_hdrlen (fp_at h buf) - fp_plen h (fp_at h buf))) \<and>
   (frag_valid h s (fp_at h buf) \<and> len - fp_hdrlen (fp_at h buf) - fp_plen h (fp_at h buf) < 0 \<longrightarrow>
      (\<exists>w1. process_frontline (Suc n) h s w buf len
         = Some (Inl (Assert_failed
             (if len - fp_hdrlen (fp_at h buf) < 0 then ''len >= 0'' else ''len >= plen'')), w1)))"
proof (intro conjI impI)
  assume "0 < HLEN_BC2 h \<and> 0 < HLEN_BC4 h \<and> nat len < n"
  then show "process_frontline n h s w buf len \<noteq> None"
    by (simp add: frontline_fuel)
next
  assume a: "process_frontline n h s w buf len = Some (Inr s', w') \<and>
    (\<forall>fp \<in> set (fragments n h buf len). frag_valid h s fp)"
  then have run: "process_frontline n h s w buf len = Some (Inr s', w')"
    and v: "\<forall>fp \<in> set (fragments n h buf len). frag_valid h s fp" by simp_all
  from frontline_decomposition [OF run v] obtain evs where
    e: "out w' = out w @ evs"
      "hl_frames evs = map (\<lambda>fp. (fp_hdrlen fp, fp_plen h fp)) (fragments n h buf len)"
      "(\<Sum>fp \<leftarrow> fragments n h buf len. fp_hdrlen fp + fp_plen h fp) = len"
    by blast
  from e(3) show "covered n h buf len = len" by (simp only: covered_def)
  from e(1,2) show "hl_frames (new_events w w') = map (\<lambda>fp. (fp_hdrlen fp, fp_plen h fp)) (fragments n h buf len)"
    by (simp add: new_events_app)
  from e(1,2) hl_frames_length [of evs] show "log_frames (new_events w w') = length (fragments n h buf len)"
    by (simp add: new_events_app)
next
  assume a: "frag_valid h s (fp_at h buf) \<and> process_frontline (Suc n) h s w buf len = Some (Inr s', w')"
  then have v: "frag_valid h s (fp_at h buf)"
    and run: "process_frontline (Suc n) h s w buf len = Some (Inr s', w')" by simp_all
  note t = frontline_tail [OF v run]
  from t show "0 \<le> len - fp_hdrlen (fp_at h buf) - fp_plen h (fp_at h buf)" by (rule conjunct1)
  from t show "\<exists>s2 w2. frontline_body h s w buf = (Inr s2, w2) \<and>
         (if 0 < len - fp_hdrlen (fp_at h buf) - fp_plen h (fp_at h buf)
          then process_frontline n h s2 w2
                 (drop (nat (fp_hdrlen (fp_at h buf)) + nat (fp_plen h (fp_at h buf))) buf)
                 (len - fp_hdrlen (fp_at h buf) - fp_plen h (fp_at h buf)) = Some (Inr s', w')
          else s' = s2 \<and> w' = w2)"
    by (rule conjunct1 [OF conjunct2])
  from t show "process_frontline (Suc 0) h s w buf len = None
         \<longleftrightarrow> 0 < len - fp_hdrlen (fp_at h buf) - fp_plen h (fp_at h buf)"
    by (rule conjunct2 [OF conjunct2])
next
  assume "frag_valid h s (fp_at h buf) \<and> len - fp_hdrlen (fp_at h buf) - fp_plen h (fp_at h buf) < 0"
  then have "frag_valid h s (fp_at h buf)"
    "len - fp_hdrlen (fp_at h buf) - fp_plen h (fp_at h buf) < 0" by blast+
  then show "\<exists>w1. process_frontline (Suc n) h s w buf len
         = Some (Inl (Assert_failed
             (if len - fp_hdrlen (fp_at h buf) < 0 then ''len >= 0'' else ''len >= plen'')), w1)"
    by (rule frontline_misfit)
qed

theorem frontline_covers_buffer_witness:
  "process_frontline 25 hdr0 st0 w0 buf2 24 \<noteq> None \<and>
   covered 2 hdr0 buf2 24 = 24 \<and>
   hl_frames (new_events w0 (snd (the (process_frontline 2 hdr0 st0 w0 buf2 24))))
     = map (\<lambda>fp. (fp_hdrlen fp, fp_plen hdr0 fp)) (fragments 2 hdr0 buf2 24) \<and>
   log_frames (new_events w0 (snd (the (process_frontline 2 hdr0 st0 w0 buf2 24))))
     = length (fragments 2 hdr0 buf2 24) \<and>
   frag_valid hdr0 st0 (fp_at hdr0 buf2) \<and>
   process_frontline (Suc 0) hdr0 st0 w0 buf2 24 = None \<and>
   frag_valid hdr0 st0 (fp_at hdr0 buf_short) \<and>
   (\<exists>w1. process_frontline 2 hdr0 st0 w0 buf_short 12 = Some (Inl (Assert_failed ''len >= plen''), w1))"
proof -
  let ?x = "process_frontline 2 hdr0 st0 w0 buf2 24"
  have x: "?x \<noteq> None" "\<not> isl (fst (the ?x))" by code_simp+
  have v: "\<forall>fp \<in> set (fragments 2 hdr0 buf2 24). frag_valid hdr0 st0 fp" by code_simp
  have p: "0 < HLEN_BC2 hdr0 \<and> 0 < HLEN_BC4 hdr0 \<and> nat 24 < 25" by code_simp
  have v1: "frag_valid hdr0 st0 (fp_at hdr0 buf2)" by code_simp
  have r1: "0 < 24 - fp_hdrlen (fp_at hdr0 buf2) - fp_plen hdr0 (fp_at hdr0 buf2)" by code_simp
  have v2: "frag_valid hdr0 st0 (fp_at hdr0 buf_short)" by code_simp
  have r2: "12 - fp_hdrlen (fp_at hdr0 buf_short) - fp_plen hdr0 (fp_at hdr0 buf_short) < 0"
    "\<not> 12 - fp_hdrlen (fp_at hdr0 buf_short) < 0" by code_simp+
  have two: "Suc (Suc 0) = 2" by simp
  from frontline_covers_buffer [of hdr0 24 25 st0 w0 buf2] p
  have "process_frontline 25 hdr0 st0 w0 buf2 24 \<noteq> None" by blast
  moreover from frontline_covers_buffer [of hdr0 24 2 st0 w0 buf2 "projr (fst (the ?x))" "snd (the ?x)"]
    some_collapse [OF x] v
  have "covered 2 hdr0 buf2 24 = 24 \<and>
   hl_frames (new_events w0 (snd (the ?x)))
     = map (\<lambda>fp. (fp_hdrlen fp, fp_plen hdr0 fp)) (fragments 2 hdr0 buf2 24) \<and>
   log_frames (new_events w0 (snd (the ?x))) = length (fragments 2 hdr0 buf2 24)"
    by blast
  moreover from frontline_covers_buffer [of hdr0 24 "Suc 0" st0 w0 buf2 "projr (fst (the ?x))" "snd (the ?x)"]
    some_collapse [OF x] v1 r1
  have "process_frontline (Suc 0) hdr0 st0 w0 buf2 24 = None"
    by (simp only: two; blast?)
  moreover from frontline_covers_buffer [of hdr0 12 "Suc 0" st0 w0 buf_short] v2 r2
  have "\<exists>w1. process_frontline 2 hdr0 st0 w0 buf_short 12 = Some (Inl (Assert_failed ''len >= plen''), w1)"
    by (simp only: two if_False; blast?)
  ultimately show ?thesis using v1 v2 by blast
qed

section \<open>The receive path: the claim\<close>

text \<open>
  C8: let the packet read into the buffer start with the byte \<open>b\<close>. If \<open>b\<close> is not
  \<^verbatim>\<open>HCI_ACLDATA_PKT\<close>, the loop prints \<^verbatim>\<open>Unknown type\<close> and goes on with the next
  read, the session unchanged apart from the buffer. If it is an ACL packet whose
  \<^verbatim>\<open>dlen\<close> differs from the length read minus \<^verbatim>\<open>sizeof(hci_acl_hdr)\<close> minus 1, the
  run ends in the failed assertion, and if \<^verbatim>\<open>dlen\<close> fits but the frontline header length
  is neither \<^verbatim>\<open>HLEN_BC2\<close> nor \<^verbatim>\<open>HLEN_BC4\<close>, it ends in \<^verbatim>\<open>abort\<close> after the message
  \<^verbatim>\<open>Unknown header len\<close>: in both cases whatever packets would follow are not read.
\<close>

theorem receive_path_errors:
  assumes "s_buf (read_packet s pkt) = b # rest"
  shows "(uint b \<noteq> HCI_ACLDATA_PKT \<longrightarrow>
       sniff_loop n h s w (Some pkt # rs)
         = sniff_loop n h (read_packet s pkt) (printf w (''Unknown type: %d'' @ NL) [uint b]) rs) \<and>
     (uint b = HCI_ACLDATA_PKT \<and> acl_at rest = Some acl \<and> length pkt < 2 ^ 63 \<and>
      uint (acl_dlen acl) \<noteq> s_len (read_packet s pkt) - sizeof_hci_acl_hdr - 1 \<longrightarrow>
       sniff_loop n h s w (Some pkt # rs)
         = Some (Inl (Assert_failed ''acl->dlen == (len - sizeof(*acl) - 1)''), w)) \<and>
     (uint b = HCI_ACLDATA_PKT \<and> acl_at rest = Some acl \<and>
      uint (acl_dlen acl) = s_len (read_packet s pkt) - sizeof_hci_acl_hdr - 1 \<and>
      fp_hdrlen (fp_at h (drop 4 rest)) \<noteq> HLEN_BC2 h \<and>
      fp_hdrlen (fp_at h (drop 4 rest)) \<noteq> HLEN_BC4 h \<longrightarrow>
       sniff_loop (Suc n) h s w (Some pkt # rs)
         = Some (Inl Aborted,
             printf w (''Unknown header len %d'' @ NL) [fp_hdrlen (fp_at h (drop 4 rest))]))"
proof (intro conjI impI)
  assume "uint b \<noteq> HCI_ACLDATA_PKT"
  then have "process n h (read_packet s pkt) w (s_buf (read_packet s pkt)) (s_len (read_packet s pkt))
      = Some (Inr (read_packet s pkt), printf w (''Unknown type: %d'' @ NL) [uint b])"
    unfolding assms by (rule process_unknown_type)
  then show "sniff_loop n h s w (Some pkt # rs)
      = sniff_loop n h (read_packet s pkt) (printf w (''Unknown type: %d'' @ NL) [uint b]) rs"
    by (rule sniff_loop_continue)
next
  assume a: "uint b = HCI_ACLDATA_PKT \<and> acl_at rest = Some acl \<and> length pkt < 2 ^ 63 \<and>
      uint (acl_dlen acl) \<noteq> s_len (read_packet s pkt) - sizeof_hci_acl_hdr - 1"
  have l: "0 \<le> s_len (read_packet s pkt)" "s_len (read_packet s pkt) \<le> int (length pkt)"
    by (simp_all add: read_packet_def Let_def)
  from a have "int (length pkt) < 2 ^ 63" by (simp flip: of_nat_less_iff)
  with l have "s_len (read_packet s pkt) < 2 ^ 63" by linarith
  moreover from a have "uint b = HCI_ACLDATA_PKT" "acl_at rest = Some acl"
    "uint (acl_dlen acl) \<noteq> s_len (read_packet s pkt) - sizeof_hci_acl_hdr - 1"
    by blast+
  ultimately have "process n h (read_packet s pkt) w (b # rest) (s_len (read_packet s pkt))
      = Some (Inl (Assert_failed ''acl->dlen == (len - sizeof(*acl) - 1)''), w)"
    using l(1) by (intro process_bad_dlen)
  then show "sniff_loop n h s w (Some pkt # rs)
      = Some (Inl (Assert_failed ''acl->dlen == (len - sizeof(*acl) - 1)''), w)"
    unfolding assms [symmetric] by (rule sniff_loop_stop)
next
  assume a: "uint b = HCI_ACLDATA_PKT \<and> acl_at rest = Some acl \<and>
      uint (acl_dlen acl) = s_len (read_packet s pkt) - sizeof_hci_acl_hdr - 1 \<and>
      fp_hdrlen (fp_at h (drop 4 rest)) \<noteq> HLEN_BC2 h \<and>
      fp_hdrlen (fp_at h (drop 4 rest)) \<noteq> HLEN_BC4 h"
  then have "uint b = HCI_ACLDATA_PKT" "acl_at rest = Some acl"
    "uint (acl_dlen acl) = s_len (read_packet s pkt) - sizeof_hci_acl_hdr - 1"
    "fp_hdrlen (fp_at h (drop 4 rest)) \<noteq> HLEN_BC2 h"
    "fp_hdrlen (fp_at h (drop 4 rest)) \<noteq> HLEN_BC4 h"
    by blast+
  then have "process (Suc n) h (read_packet s pkt) w (b # rest) (s_len (read_packet s pkt))
      = Some (Inl Aborted,
          printf w (''Unknown header len %d'' @ NL) [fp_hdrlen (fp_at h (drop 4 rest))])"
    by (rule process_bad_hlen)
  then show "sniff_loop (Suc n) h s w (Some pkt # rs)
      = Some (Inl Aborted,
          printf w (''Unknown header len %d'' @ NL) [fp_hdrlen (fp_at h (drop 4 rest))])"
    unfolding assms [symmetric] by (rule sniff_loop_stop)
qed

theorem receive_path_errors_witness:
  "s_buf (read_packet sb pkt_evt) = 0x04 # [0x0E, 0x01, 0x00, 0, 0, 0, 0] \<and>
   uint (0x04 :: u8) \<noteq> HCI_ACLDATA_PKT \<and>
   sniff_loop 1 hdr0 sb w0 [Some pkt_evt, Some pkt_hlen, Some pkt_evt]
     = Some (Inl Aborted,
         prints w0 [Printf (''Unknown type: %d'' @ NL) [4], Printf (''Unknown header len %d'' @ NL) [7]]) \<and>
   sniff_loop 1 hdr0 sb w0 [Some pkt_short, Some pkt_evt]
     = Some (Inl (Assert_failed ''acl->dlen == (len - sizeof(*acl) - 1)''), w0)"
proof -
  let ?w1 = "printf w0 (''Unknown type: %d'' @ NL) [4]"
  let ?s1 = "read_packet sb pkt_evt"
  have b1: "s_buf (read_packet sb pkt_evt) = 0x04 # [0x0E, 0x01, 0x00, 0, 0, 0, 0]"
    by code_simp
  have t1: "uint (0x04 :: u8) \<noteq> HCI_ACLDATA_PKT" by code_simp
  have b2: "s_buf (read_packet ?s1 pkt_hlen) = 0x02 # [0x01, 0x00, 0x01, 0x00, 0x07, 0, 0]"
    by code_simp
  have t2: "uint (0x02 :: u8) = HCI_ACLDATA_PKT" by code_simp
  have a2: "acl_at [0x01, 0x00, 0x01, 0x00, 0x07, 0, 0] = Some \<lparr>acl_handle = 1, acl_dlen = 1\<rparr>"
    by code_simp
  have l2: "uint (acl_dlen \<lparr>acl_handle = 1, acl_dlen = 1\<rparr>)
      = s_len (read_packet ?s1 pkt_hlen) - sizeof_hci_acl_hdr - 1"
    by code_simp
  have h2: "fp_hdrlen (fp_at hdr0 (drop 4 [0x01, 0x00, 0x01, 0x00, 0x07, 0, 0])) = 7"
    "HLEN_BC2 hdr0 = 9" "HLEN_BC4 hdr0 = 10"
    by code_simp+
  have b3: "s_buf (read_packet sb pkt_short) = 0x02 # [0x01, 0x00, 0x09, 0x00, 0x0A, 0, 0]"
    by code_simp
  have a3: "acl_at [0x01, 0x00, 0x09, 0x00, 0x0A, 0, 0] = Some \<lparr>acl_handle = 1, acl_dlen = 9\<rparr>"
    by code_simp
  have l3: "uint (acl_dlen \<lparr>acl_handle = 1, acl_dlen = 9\<rparr>)
      \<noteq> s_len (read_packet sb pkt_short) - sizeof_hci_acl_hdr - 1"
    by code_simp
  have n3: "length pkt_short < 2 ^ 63" by (simp add: pkt_short_def)
  from receive_path_errors [OF b1, where n = 1 and h = hdr0 and w = w0 and rs = "[Some pkt_hlen, Some pkt_evt]"] t1
  have "sniff_loop 1 hdr0 sb w0 [Some pkt_evt, Some pkt_hlen, Some pkt_evt]
      = sniff_loop 1 hdr0 ?s1 ?w1 [Some pkt_hlen, Some pkt_evt]"
    by simp
  also from receive_path_errors [OF b2, where acl = "\<lparr>acl_handle = 1, acl_dlen = 1\<rparr>" and h = hdr0
      and n = 0 and w = ?w1 and rs = "[Some pkt_evt]"]
    t2 a2 l2 h2
  have "\<dots> = Some (Inl Aborted, printf ?w1 (''Unknown header len %d'' @ NL) [7])"
    by simp
  finally have c: "sniff_loop 1 hdr0 sb w0 [Some pkt_evt, Some pkt_hlen, Some pkt_evt]
     = Some (Inl Aborted,
         prints w0 [Printf (''Unknown type: %d'' @ NL) [4], Printf (''Unknown header len %d'' @ NL) [7]])"
    by (simp add: prints_def printf_def)
  from receive_path_errors [OF b3, where acl = "\<lparr>acl_handle = 1, acl_dlen = 9\<rparr>" and n = 1
      and h = hdr0 and w = w0 and rs = "[Some pkt_evt]"]
    t2 a3 l3 n3
  have d: "sniff_loop 1 hdr0 sb w0 [Some pkt_short, Some pkt_evt]
     = Some (Inl (Assert_failed ''acl->dlen == (len - sizeof(*acl) - 1)''), w0)"
    by simp
  from b1 t1 c d show ?thesis by simp
qed

section \<open>The timer command: the claim\<close>

text \<open>
  C7: when the device is found and opened and the library answers the request of
  \<^verbatim>\<open>basesniff_get_timer\<close> with \<open>reply\<close>, the command bytes of that request are the
  prefix \<^verbatim>\<open>FRAG_FIRST | FRAG_LAST | CHAN_DEBUG\<close>, then \<^verbatim>\<open>CMD_TIMER\<close>, then the zeroed
  payload area (with the macro values of the spec: 0x07, 0x00, zeros), and the function
  returns the 4-byte little-endian integer at offset 2 of the reply: 0x12345678 for a reply
  that begins 00 00 78 56 34 12.
\<close>

theorem get_timer_request_and_value:
  assumes "DP_DATA_SIZE h \<le> 252" "0 \<le> hci_devid lib dev"
    "0 \<le> hci_open_dev lib (hci_devid lib dev)"
    "hci_send_req lib (hci_open_dev lib (hci_devid lib dev)) (timer_request h) 2000 = Some reply"
  shows "take (nat (rq_clen (timer_request h))) (rq_cparam (timer_request h))
       = word_of_int (FRAG_FIRST h OR FRAG_LAST h OR CHAN_DEBUG h) # word_of_int (CMD_TIMER h)
         # replicate (DP_DATA_SIZE h) 0 \<and>
     (spec_debug_macros h \<longrightarrow>
        take (nat (rq_clen (timer_request h))) (rq_cparam (timer_request h))
          = 0x07 # 0x00 # replicate (DP_DATA_SIZE h) 0) \<and>
     (6 \<le> length reply \<longrightarrow>
        basesniff_get_timer h lib (Some (st, dev))
          = Inr (Some (le32_at reply 2, st\<lparr>s_fd := hci_open_dev lib (hci_devid lib dev)\<rparr>))) \<and>
     (take 6 reply = [0x00, 0x00, 0x78, 0x56, 0x34, 0x12] \<longrightarrow>
        basesniff_get_timer h lib (Some (st, dev))
          = Inr (Some (0x12345678, st\<lparr>s_fd := hci_open_dev lib (hci_devid lib dev)\<rparr>)))"
proof (intro conjI impI)
  show b: "take (nat (rq_clen (timer_request h))) (rq_cparam (timer_request h))
       = word_of_int (FRAG_FIRST h OR FRAG_LAST h OR CHAN_DEBUG h) # word_of_int (CMD_TIMER h)
         # replicate (DP_DATA_SIZE h) 0"
    using assms(1) by (rule timer_request_bytes)
  assume "spec_debug_macros h"
  then show "take (nat (rq_clen (timer_request h))) (rq_cparam (timer_request h))
          = 0x07 # 0x00 # replicate (DP_DATA_SIZE h) 0"
    by (simp only: b spec_debug_macros_def) simp
next
  assume "6 \<le> length reply"
  with assms show "basesniff_get_timer h lib (Some (st, dev))
          = Inr (Some (le32_at reply 2, st\<lparr>s_fd := hci_open_dev lib (hci_devid lib dev)\<rparr>))"
    by (rule get_timer_run)
next
  assume r: "take 6 reply = [0x00, 0x00, 0x78, 0x56, 0x34, 0x12]"
  from get_timer_run [OF assms le32_example(1) [OF r], of st]
  show "basesniff_get_timer h lib (Some (st, dev))
          = Inr (Some (0x12345678, st\<lparr>s_fd := hci_open_dev lib (hci_devid lib dev)\<rparr>))"
    by (simp only: le32_example(2) [OF r])
qed

theorem get_timer_request_and_value_witness:
  "DP_DATA_SIZE hdr0 \<le> 252 \<and> 0 \<le> hci_devid lib0 ''hci0'' \<and>
   0 \<le> hci_open_dev lib0 (hci_devid lib0 ''hci0'') \<and> spec_debug_macros hdr0 \<and>
   take 21 (rq_cparam (timer_request hdr0)) = 0x07 # 0x00 # replicate 19 0 \<and>
   basesniff_get_timer hdr0 lib0 (Some (st0, ''hci0'')) = Inr (Some (0x12345678, st0\<lparr>s_fd := 3\<rparr>))"
proof -
  have a: "DP_DATA_SIZE hdr0 \<le> 252" "0 \<le> hci_devid lib0 ''hci0''"
    "0 \<le> hci_open_dev lib0 (hci_devid lib0 ''hci0'')"
    by (simp_all add: hdr0_def lib0_def)
  have r: "hci_send_req lib0 (hci_open_dev lib0 (hci_devid lib0 ''hci0'')) (timer_request hdr0) 2000
      = Some [0x00, 0x00, 0x78, 0x56, 0x34, 0x12, 0x00, 0x00]"
    by (simp add: lib0_def)
  have m: "spec_debug_macros hdr0" by code_simp
  have c: "nat (rq_clen (timer_request hdr0)) = 21" "DP_DATA_SIZE hdr0 = 19"
    "hci_open_dev lib0 (hci_devid lib0 ''hci0'') = 3"
    by (simp_all add: timer_request_fields hdr0_def lib0_def)
  have t: "take 6 [0x00, 0x00, 0x78, 0x56, 0x34, 0x12, 0x00, 0x00 :: u8] = [0x00, 0x00, 0x78, 0x56, 0x34, 0x12]"
    by simp
  note th = get_timer_request_and_value [OF a r, of st0, unfolded c]
  from th m have p: "take 21 (rq_cparam (timer_request hdr0)) = 0x07 # 0x00 # replicate 19 0"
    by blast
  from th t have q: "basesniff_get_timer hdr0 lib0 (Some (st0, ''hci0''))
      = Inr (Some (0x12345678, st0\<lparr>s_fd := 3\<rparr>))"
    by blast
  from a m p q show ?thesis by blast
qed

end
